theory Spec2Isabelle
  imports Complex_Main "HOL-Library.Word" "HOL-Library.Log_Nat"
begin

section \<open>JavaScript numbers\<close>

text \<open>
  Every number of \<^verbatim>\<open>app.js\<close> is an IEEE-754 binary64 value. A finite value is
  modelled by the rational it denotes, the two infinities and NaN are constructors of
  their own, and every arithmetic operation rounds its exact result to the nearest
  binary64 value, ties to even (\<open>fl\<close>). The model identifies \<open>-0\<close> with \<open>+0\<close>: the
  two differ only as divisors, and every divisor of the program that can be zero
  (\<^verbatim>\<open>cnt\<close>, \<^verbatim>\<open>elH\<close>, \<^verbatim>\<open>procH\<close>) is \<open>+0\<close> there.
\<close>

datatype jsnum = Fin rat | PInf | NInf | NaN

text \<open>\<open>ilog2 a\<close> is the binary exponent of a positive rational: \<open>2\<^sup>k \<le> a < 2\<^sup>k\<^sup>+\<^sup>1\<close>.\<close>

definition ilog2 :: "rat \<Rightarrow> int" where
  "ilog2 a = (let (p, q) = quotient_of a; k = bitlen p - bitlen q
              in if 2 powi k \<le> a then k else k - 1)"

text \<open>Rounding to the nearest integer, a tie going to the even neighbour.\<close>

definition rne :: "rat \<Rightarrow> int" where
  "rne a = (let f = \<lfloor>a\<rfloor>; d = a - of_int f
            in if d < 1 / 2 then f else if 1 / 2 < d then f + 1
               else if even f then f else f + 1)"

text \<open>
  Rounding a rational to binary64: 53 significant bits, the least exponent of a unit in
  the last place is \<open>-1074\<close> (subnormal numbers), and a rounded magnitude of \<open>2\<^sup>1\<^sup>0\<^sup>2\<^sup>4\<close> or
  more overflows to an infinity.
\<close>

definition fl :: "rat \<Rightarrow> jsnum" where
  "fl v = (if v = 0 then Fin 0
           else let a = \<bar>v\<bar>;
                    e = max (ilog2 a - 52) (- 1074);
                    r = of_int (rne (a / 2 powi e)) * 2 powi e
                in if 2 powi 1024 \<le> r then (if 0 < v then PInf else NInf)
                   else Fin (if 0 < v then r else - r))"

fun js_neg :: "jsnum \<Rightarrow> jsnum" where
  "js_neg (Fin a) = Fin (- a)"
| "js_neg PInf = NInf"
| "js_neg NInf = PInf"
| "js_neg NaN = NaN"

fun js_add :: "jsnum \<Rightarrow> jsnum \<Rightarrow> jsnum" where
  "js_add NaN _ = NaN"
| "js_add _ NaN = NaN"
| "js_add (Fin a) (Fin b) = fl (a + b)"
| "js_add PInf NInf = NaN"
| "js_add NInf PInf = NaN"
| "js_add PInf _ = PInf"
| "js_add NInf _ = NInf"
| "js_add (Fin _) b = b"

definition js_sub :: "jsnum \<Rightarrow> jsnum \<Rightarrow> jsnum" where
  "js_sub a b = js_add a (js_neg b)"

text \<open>The sign of a number that is not NaN: \<open>-1\<close>, \<open>0\<close> or \<open>1\<close>.\<close>

fun js_sign :: "jsnum \<Rightarrow> int" where
  "js_sign (Fin a) = (if a < 0 then - 1 else if a = 0 then 0 else 1)"
| "js_sign PInf = 1"
| "js_sign NInf = - 1"
| "js_sign NaN = 0"

definition inf_of_sign :: "int \<Rightarrow> jsnum" where
  "inf_of_sign s = (if s = 0 then NaN else if 0 < s then PInf else NInf)"

fun js_mul :: "jsnum \<Rightarrow> jsnum \<Rightarrow> jsnum" where
  "js_mul NaN _ = NaN"
| "js_mul _ NaN = NaN"
| "js_mul (Fin a) (Fin b) = fl (a * b)"
| "js_mul a b = inf_of_sign (js_sign a * js_sign b)"

fun js_div :: "jsnum \<Rightarrow> jsnum \<Rightarrow> jsnum" where
  "js_div NaN _ = NaN"
| "js_div _ NaN = NaN"
| "js_div (Fin a) (Fin b) = (if b = 0 then inf_of_sign (js_sign (Fin a)) else fl (a / b))"
| "js_div (Fin _) _ = Fin 0"
| "js_div a (Fin b) = inf_of_sign (js_sign a * (if b < 0 then - 1 else 1))"
| "js_div _ _ = NaN"

text \<open>The relational operator \<^verbatim>\<open><\<close>: false as soon as one side is NaN.\<close>

fun js_less :: "jsnum \<Rightarrow> jsnum \<Rightarrow> bool" where
  "js_less NaN _ = False"
| "js_less _ NaN = False"
| "js_less (Fin a) (Fin b) = (a < b)"
| "js_less _ NInf = False"
| "js_less PInf _ = False"
| "js_less _ _ = True"

fun js_abs :: "jsnum \<Rightarrow> jsnum" where
  "js_abs (Fin a) = Fin \<bar>a\<bar>"
| "js_abs NInf = PInf"
| "js_abs a = a"

text \<open>
  \<^verbatim>\<open>v | 0\<close> is ToInt32: NaN and the infinities give 0, a finite value is truncated
  towards zero and reduced modulo \<open>2\<^sup>3\<^sup>2\<close> into the signed range.
\<close>

fun to_int32 :: "jsnum \<Rightarrow> int" where
  "to_int32 (Fin a) =
     (let t = (if 0 \<le> a then \<lfloor>a\<rfloor> else - \<lfloor>- a\<rfloor>); m = t mod 2 ^ 32
      in if 2 ^ 31 \<le> m then m - 2 ^ 32 else m)"
| "to_int32 _ = 0"

section \<open>Properties of the rounding\<close>

lemma bitlen_rat_bounds:
  assumes "0 < p"
  shows "(2::rat) powi (bitlen p - 1) \<le> of_int p" "of_int p < (2::rat) powi (bitlen p)"
proof -
  have b: "2 ^ nat (bitlen p - 1) \<le> p" "p < 2 ^ nat (bitlen p)"
    using bitlen_bounds [OF assms] by auto
  have pos: "1 \<le> bitlen p" using assms by (simp add: bitlen_alt_def)
  have "(2::rat) powi (bitlen p - 1) = 2 ^ nat (bitlen p - 1)"
    using pos by (simp add: power_int_def)
  also have "\<dots> = of_int (2 ^ nat (bitlen p - 1))" by simp
  also have "\<dots> \<le> of_int p" using b(1) by (simp only: of_int_le_iff)
  finally show "(2::rat) powi (bitlen p - 1) \<le> of_int p" .
  have "of_int p < (of_int (2 ^ nat (bitlen p)) :: rat)" using b(2) by (simp only: of_int_less_iff)
  also have "\<dots> = 2 powi (bitlen p)" using pos by (simp add: power_int_def)
  finally show "of_int p < (2::rat) powi (bitlen p)" .
qed

lemma ilog2_bounds:
  assumes "0 < a"
  shows "2 powi (ilog2 a) \<le> a" "a < 2 powi (ilog2 a + 1)"
proof -
  obtain p q where pq: "quotient_of a = (p, q)" by (cases "quotient_of a")
  have q: "0 < q" using pq by (rule quotient_of_denom_pos)
  have a: "a = of_int p / of_int q" using pq by (rule quotient_of_div)
  have p: "0 < p" using assms q a by (simp add: zero_less_divide_iff)
  note bp = bitlen_rat_bounds [OF p] and bq = bitlen_rat_bounds [OF q]
  let ?k = "bitlen p - bitlen q"
  have qpos: "(0::rat) < of_int q" using q by simp
  have up: "a < 2 powi (?k + 1)"
  proof -
    have "of_int p < (2::rat) powi (?k + 1) * 2 powi (bitlen q - 1)"
      using bp(2) by (simp add: power_int_add [symmetric])
    also have "\<dots> \<le> 2 powi (?k + 1) * of_int q"
      using bq(1) by (intro mult_left_mono) simp_all
    finally show ?thesis using qpos by (simp add: a pos_divide_less_eq)
  qed
  have lo: "2 powi (?k - 1) \<le> a"
  proof -
    have "(2::rat) powi (?k - 1) * of_int q \<le> 2 powi (?k - 1) * 2 powi (bitlen q)"
      using bq(2) by (intro mult_left_mono) simp_all
    also have "\<dots> = 2 powi (bitlen p - 1)" by (simp add: power_int_add [symmetric])
    also have "\<dots> \<le> of_int p" by (rule bp(1))
    finally show ?thesis using qpos by (simp add: a pos_le_divide_eq)
  qed
  have il: "ilog2 a = (if 2 powi ?k \<le> a then ?k else ?k - 1)"
    by (simp add: ilog2_def pq Let_def)
  show "2 powi (ilog2 a) \<le> a" using lo by (simp add: il)
  show "a < 2 powi (ilog2 a + 1)" using up by (auto simp: il)
qed

lemma rne_near: "\<bar>of_int (rne a) - a\<bar> \<le> 1 / 2"
proof -
  have "of_int \<lfloor>a\<rfloor> \<le> a" "a < of_int \<lfloor>a\<rfloor> + 1" by linarith+
  then show ?thesis by (auto simp: rne_def Let_def)
qed

lemma rne_ge: "of_int n \<le> a \<Longrightarrow> n \<le> rne a"
proof -
  assume "of_int n \<le> a"
  then have "n \<le> \<lfloor>a\<rfloor>" by (simp add: le_floor_iff)
  then show ?thesis by (auto simp: rne_def Let_def)
qed

lemma rne_of_int [simp]: "rne (of_int n) = n"
  by (simp add: rne_def)


lemma pow2_less_cancel:
  assumes "(2::rat) powi m < 2 powi n"
  shows "m < n"
proof (rule ccontr)
  assume "\<not> m < n"
  then have "(2::rat) powi n \<le> 2 powi m" by (intro power_int_increasing) simp_all
  then show False using assms by simp
qed

lemma fl_pos_unfold:
  assumes "0 < v"
  defines "e \<equiv> max (ilog2 v - 52) (- 1074)"
  defines "r \<equiv> of_int (rne (v / 2 powi e)) * 2 powi e"
  shows "fl v = (if 2 powi 1024 \<le> r then PInf else Fin r)"
  using assms(1) by (simp add: fl_def Let_def e_def r_def)

lemma fl_round_err:
  assumes "0 < v"
  defines "e \<equiv> max (ilog2 v - 52) (- 1074)"
  defines "r \<equiv> of_int (rne (v / 2 powi e)) * 2 powi e"
  shows "\<bar>r - v\<bar> \<le> 2 powi (e - 1)" "0 \<le> r"
proof -
  have p: "(0::rat) < 2 powi e" by simp
  have "\<bar>of_int (rne (v / 2 powi e)) - v / 2 powi e\<bar> * 2 powi e \<le> 1 / 2 * 2 powi e"
    by (intro mult_right_mono rne_near) simp
  moreover have "\<bar>of_int (rne (v / 2 powi e)) - v / 2 powi e\<bar> * 2 powi e = \<bar>r - v\<bar>"
  proof -
    have "\<bar>of_int (rne (v / 2 powi e)) - v / 2 powi e\<bar> * 2 powi e
          = \<bar>(of_int (rne (v / 2 powi e)) - v / 2 powi e) * 2 powi e\<bar>"
      by (simp add: abs_mult)
    also have "(of_int (rne (v / 2 powi e)) - v / 2 powi e) * 2 powi e = r - v"
      by (simp add: r_def left_diff_distrib)
    finally show ?thesis .
  qed
  moreover have "(1 / 2 :: rat) * 2 powi e = 2 powi (e - 1)"
    by (simp add: power_int_diff)
  ultimately show "\<bar>r - v\<bar> \<le> 2 powi (e - 1)" by simp
  have "0 \<le> v / 2 powi e" using assms(1) by simp
  then have "0 \<le> rne (v / 2 powi e)" using rne_ge [of 0] by simp
  then show "0 \<le> r" by (simp add: r_def)
qed

lemma fl_nonneg:
  assumes "0 \<le> v"
  shows "fl v = PInf \<or> (\<exists>r. fl v = Fin r \<and> 0 \<le> r)"
proof (cases "v = 0")
  case True
  then show ?thesis by (simp add: fl_def)
next
  case False
  then have "0 < v" using assms by simp
  then show ?thesis
    using fl_pos_unfold [of v] fl_round_err(2) [of v] by (auto split: if_splits)
qed

lemma fl_small:
  assumes "0 \<le> v" and "v < 1024"
  shows "\<exists>r. fl v = Fin r \<and> 0 \<le> r \<and> \<bar>r - v\<bar> \<le> 2 powi (- 44)"
proof (cases "v = 0")
  case True
  then show ?thesis by (simp add: fl_def)
next
  case False
  then have pos: "0 < v" using assms by simp
  define e where "e = max (ilog2 v - 52) (- 1074)"
  define r :: rat where "r = of_int (rne (v / 2 powi e)) * 2 powi e"
  have "(2::rat) powi (ilog2 v) < 2 powi 10"
    using ilog2_bounds(1) [OF pos] assms(2) by simp
  then have "ilog2 v < 10" by (rule pow2_less_cancel)
  then have e: "e - 1 \<le> - 44" by (simp add: e_def)
  have "\<bar>r - v\<bar> \<le> 2 powi (e - 1)" "0 \<le> r"
    using fl_round_err [OF pos] by (simp_all add: e_def r_def)
  moreover have "(2::rat) powi (e - 1) \<le> 2 powi (- 44)"
    using e by (intro power_int_increasing) simp_all
  ultimately have err: "\<bar>r - v\<bar> \<le> 2 powi (- 44)" "0 \<le> r" by simp_all
  have "r \<le> v + 2 powi (- 44)" using err(1) by linarith
  also have "\<dots> < 2 powi 1024" using assms(2) by (simp add: power_int_minus)
  finally have "\<not> 2 powi 1024 \<le> r" by simp
  then have "fl v = Fin r" using fl_pos_unfold [OF pos] by (simp add: e_def r_def)
  then show ?thesis using err by blast
qed

lemma fl_ge1:
  assumes "1 \<le> v"
  shows "fl v = PInf \<or> (\<exists>r. fl v = Fin r \<and> 1 \<le> r)"
proof -
  have pos: "0 < v" using assms by simp
  define e where "e = max (ilog2 v - 52) (- 1074)"
  define r :: rat where "r = of_int (rne (v / 2 powi e)) * 2 powi e"
  have "(2::rat) powi 0 < 2 powi (ilog2 v + 1)"
    using ilog2_bounds(2) [OF pos] assms by simp
  then have "0 < ilog2 v + 1" by (rule pow2_less_cancel)
  then have l0: "0 \<le> ilog2 v" by simp
  then have e: "e = ilog2 v - 52" by (simp add: e_def)
  have "(2::rat) powi 52 * 2 powi e \<le> v"
    using ilog2_bounds(1) [OF pos] by (simp add: e power_int_add [symmetric] del: power_int_numeral)
  then have "of_int (2 ^ 52) \<le> v / 2 powi e"
    by (simp add: pos_le_divide_eq)
  then have "2 ^ 52 \<le> rne (v / 2 powi e)" by (rule rne_ge)
  then have "(of_int (2 ^ 52) :: rat) \<le> of_int (rne (v / 2 powi e))"
    by (simp only: of_int_le_iff)
  then have "(2::rat) powi 52 * 2 powi e \<le> r"
    unfolding r_def by (intro mult_right_mono) simp_all
  moreover have "(2::rat) powi 52 * 2 powi e = 2 powi (ilog2 v)"
    by (simp add: e power_int_add [symmetric] del: power_int_numeral)
  moreover have "(1::rat) \<le> 2 powi (ilog2 v)" using l0 by (simp add: one_le_power_int)
  ultimately have "1 \<le> r" by simp
  then show ?thesis using fl_pos_unfold [OF pos] by (auto simp: e_def r_def)
qed


lemma fl_minus: "fl (- v) = js_neg (fl v)"
  by (cases "v = 0"; cases "0 < v") (auto simp: fl_def Let_def)

lemma ilog2_eqI:
  assumes "0 < v" and "2 powi k \<le> v" and "v < 2 powi (k + 1)"
  shows "ilog2 v = k"
proof -
  have "(2::rat) powi (ilog2 v) < 2 powi (k + 1)"
    using ilog2_bounds(1) [OF assms(1)] assms(3) by simp
  then have "ilog2 v < k + 1" by (rule pow2_less_cancel)
  moreover have "(2::rat) powi k < 2 powi (ilog2 v + 1)"
    using ilog2_bounds(2) [OF assms(1)] assms(2) by simp
  then have "k < ilog2 v + 1" by (rule pow2_less_cancel)
  ultimately show ?thesis by simp
qed

lemma rne_eqI:
  assumes "\<bar>a - of_int m\<bar> < 1 / 2 \<or> (\<bar>a - of_int m\<bar> = 1 / 2 \<and> even m)"
  shows "rne a = m"
proof -
  have fl: "of_int \<lfloor>a\<rfloor> \<le> a" "a < of_int \<lfloor>a\<rfloor> + 1" by linarith+
  have "\<lfloor>a\<rfloor> = m \<or> \<lfloor>a\<rfloor> = m - 1"
  proof -
    have am: "a < of_int m + 1" "of_int m - 1 < a"
      using assms by (auto simp: abs_if split: if_splits)
    have "of_int \<lfloor>a\<rfloor> < of_int m + (1::rat)" using fl(1) am(1) by linarith
    then have "of_int \<lfloor>a\<rfloor> < (of_int (m + 1) :: rat)" by simp
    then have "\<lfloor>a\<rfloor> < m + 1" by (simp only: of_int_less_iff)
    moreover have "of_int m - (1::rat) < of_int \<lfloor>a\<rfloor> + 1" using fl(2) am(2) by linarith
    then have "(of_int (m - 1) :: rat) < of_int (\<lfloor>a\<rfloor> + 1)" by simp
    then have "m - 1 < \<lfloor>a\<rfloor> + 1" by (simp only: of_int_less_iff)
    ultimately have "\<lfloor>a\<rfloor> < m + 1" "m - 1 \<le> \<lfloor>a\<rfloor>" by simp_all
    then show ?thesis by linarith
  qed
  then show ?thesis
  proof
    assume f: "\<lfloor>a\<rfloor> = m"
    then have "a - of_int m < 1 / 2 \<or> (a - of_int m = 1 / 2 \<and> even m)"
      using assms fl by (auto simp: abs_if split: if_splits)
    then show ?thesis by (auto simp: rne_def Let_def f)
  next
    assume f: "\<lfloor>a\<rfloor> = m - 1"
    then have "1 / 2 < a - of_int (m - 1) \<or> (a - of_int (m - 1) = 1 / 2 \<and> odd (m - 1))"
      using assms fl by (auto simp: abs_if split: if_splits)
    then show ?thesis by (auto simp: rne_def Let_def f)
  qed
qed

lemma fl_eqI:
  assumes "0 < v" and "2 powi k \<le> v" and "v < 2 powi (k + 1)"
    and "e = max (k - 52) (- 1074)"
    and "\<bar>v / 2 powi e - of_int m\<bar> < 1 / 2 \<or> (\<bar>v / 2 powi e - of_int m\<bar> = 1 / 2 \<and> even m)"
    and "of_int m * 2 powi e < (2::rat) powi 1024"
  shows "fl v = Fin (of_int m * 2 powi e)"
proof -
  have "ilog2 v = k" using assms(1-3) by (rule ilog2_eqI)
  then have e: "max (ilog2 v - 52) (- 1074) = e" using assms(4) by simp
  have "rne (v / 2 powi e) = m" using assms(5) by (rule rne_eqI)
  then show ?thesis
    using fl_pos_unfold [OF assms(1)] assms(6) unfolding e by simp
qed

lemma fl_of_int:
  assumes "\<bar>n\<bar> < 2 ^ 53"
  shows "fl (of_int n) = Fin (of_int n)"
proof -
  have pos: "fl (of_int j) = Fin (of_int j)" if j: "0 < j" "j < 2 ^ 53" for j
  proof -
    let ?v = "of_int j :: rat"
    have v: "0 < ?v" using j by simp
    define e where "e = max (ilog2 ?v - 52) (- 1074)"
    have "(2::rat) powi (ilog2 ?v) \<le> ?v" using ilog2_bounds(1) [OF v] .
    also have "?v < of_int (2 ^ 53)" using j(2) by (simp only: of_int_less_iff)
    also have "\<dots> = 2 powi 53" by simp
    finally have "ilog2 ?v < 53" by (rule pow2_less_cancel)
    moreover have "(2::rat) powi 0 < 2 powi (ilog2 ?v + 1)"
    proof -
      have "(1::rat) \<le> ?v" using j(1) by (simp add: int_one_le_iff_zero_less)
      then show ?thesis using ilog2_bounds(2) [OF v] by simp
    qed
    then have "0 < ilog2 ?v + 1" by (rule pow2_less_cancel)
    ultimately have e: "e \<le> 0" "- 52 \<le> e" by (simp_all add: e_def)
    have inv: "1 / (2::rat) powi e = of_int (2 ^ nat (- e))"
      using e by (simp add: power_int_def power_inverse [symmetric] field_simps)
    have "?v / 2 powi e = of_int (j * 2 ^ nat (- e))"
      using inv by (simp add: field_simps)
    then have "rne (?v / 2 powi e) = j * 2 ^ nat (- e)" by (simp only: rne_of_int)
    then have "of_int (rne (?v / 2 powi e)) * 2 powi e = ?v"
      using inv by (simp add: field_simps)
    moreover have "?v < 2 powi 1024"
    proof -
      have "?v < of_int (2 ^ 53)" using j(2) by (simp only: of_int_less_iff)
      also have "\<dots> \<le> 2 powi 1024" by simp
      finally show ?thesis .
    qed
    ultimately show ?thesis
      using fl_pos_unfold [OF v] by (simp add: e_def)
  qed
  show ?thesis
  proof (cases "n = 0")
    case True
    then show ?thesis by (simp add: fl_def)
  next
    case False
    show ?thesis
    proof (cases "0 < n")
      case True
      then show ?thesis using pos [of n] assms by simp
    next
      case neg: False
      then have n: "0 < - n" "- n < 2 ^ 53" using False assms by simp_all
      have "fl (- of_int (- n)) = js_neg (fl (of_int (- n)))" by (rule fl_minus)
      then show ?thesis using pos [OF n] by simp
    qed
  qed
qed



text \<open>
  The box of a match, \<^verbatim>\<open>{ x, y, w, h }\<close> in processing space, and the object that
  \<^verbatim>\<open>findTemplate\<close> returns, \<^verbatim>\<open>{ x, y, score, box }\<close>, whose box is \<^verbatim>\<open>null\<close> in
  the initial value of \<^verbatim>\<open>best\<close>.
\<close>

record box =
  box_x :: int
  box_y :: int
  box_w :: int
  box_h :: int

record match =
  best_x :: int
  best_y :: int
  score :: jsnum
  box :: "box option"

section \<open>Images and the template matcher\<close>

text \<open>
  What \<^verbatim>\<open>getImageData\<close> returns for a canvas: its width, its height and the bytes
  of its pixels, four (red, green, blue, alpha) for each pixel, row by row. For a canvas
  of width or height 0 \<^verbatim>\<open>getImageData\<close> throws instead, so the images that reach the
  code below have positive dimensions and \<open>4 * width * height\<close> bytes; the definitions
  are total all the same, and say what the reads of the code give on any byte list.
\<close>

type_synonym byte = "8 word"

record image =
  width :: nat
  height :: nat
  data :: "byte list"

text \<open>
  Reading one element of the byte array as a number. An index outside the array reads
  \<^verbatim>\<open>undefined\<close>, which arithmetic converts to NaN.
\<close>

definition channel :: "byte list \<Rightarrow> int \<Rightarrow> jsnum" where
  "channel d i = (if 0 \<le> i \<and> i < int (length d) then Fin (of_nat (unat (d ! nat i))) else NaN)"

text \<open>
  The grayscale conversion \<^verbatim>\<open>(r * 0.299 + g * 0.587 + b * 0.114) | 0\<close>; each literal
  denotes the binary64 value nearest to it.
\<close>

definition luma :: "jsnum \<Rightarrow> jsnum \<Rightarrow> jsnum \<Rightarrow> int" where
  "luma r g b =
     to_int32 (js_add (js_add (js_mul r (fl (299 / 1000))) (js_mul g (fl (587 / 1000))))
                      (js_mul b (fl (114 / 1000))))"

text \<open>Storing an integer into a \<^verbatim>\<open>Uint8ClampedArray\<close> clamps it to \<open>[0, 255]\<close>.\<close>

definition clamp8 :: "int \<Rightarrow> nat" where
  "clamp8 v = nat (max 0 (min 255 v))"

text \<open>
  The precomputed grayscale template (lines 197 to 206): entry \<open>i\<close> is the luminance of
  pixel \<open>i\<close> of the template. The running sum \<^verbatim>\<open>tSum\<close> and \<^verbatim>\<open>tMean\<close> are never read
  and are left out.
\<close>

definition tGray :: "image \<Rightarrow> nat list" where
  "tGray T = map (\<lambda>i. clamp8 (luma (channel (data T) (int i * 4 + 0))
                                     (channel (data T) (int i * 4 + 1))
                                     (channel (data T) (int i * 4 + 2))))
                 [0 ..< width T * height T]"

definition tGray_at :: "nat list \<Rightarrow> int \<Rightarrow> jsnum" where
  "tGray_at tg i = (if 0 \<le> i \<and> i < int (length tg) then Fin (of_nat (tg ! nat i)) else NaN)"

text \<open>
  The two inner loops (lines 216 to 231) visit every second row and every second column
  of the window at \<open>(x, y)\<close> and accumulate \<^verbatim>\<open>sum\<close> (here \<open>tot\<close>) and \<^verbatim>\<open>cnt\<close>.
\<close>

function tx_loop ::
  "image \<Rightarrow> image \<Rightarrow> nat list \<Rightarrow> int \<Rightarrow> int \<Rightarrow> int \<Rightarrow> int \<Rightarrow> jsnum \<times> jsnum \<Rightarrow> jsnum \<times> jsnum"
where
  "tx_loop F T tg x fy ty tx (tot, cnt) =
     (if tx < int (width T) then
        let fx = x + tx;
            fi = (fy * int (width F) + fx) * 4;
            v = luma (channel (data F) (fi + 0)) (channel (data F) (fi + 1))
                     (channel (data F) (fi + 2));
            ti = ty * int (width T) + tx;
            dv = js_sub (Fin (of_int v)) (tGray_at tg ti)
        in tx_loop F T tg x fy ty (tx + 2) (js_add tot (js_abs dv), js_add cnt (Fin 1))
      else (tot, cnt))"
  by pat_completeness auto
termination
  by (relation "measure (\<lambda>(F, T, tg, x, fy, ty, tx, acc). nat (int (width T) - tx))") auto

function ty_loop ::
  "image \<Rightarrow> image \<Rightarrow> nat list \<Rightarrow> int \<Rightarrow> int \<Rightarrow> int \<Rightarrow> jsnum \<times> jsnum \<Rightarrow> jsnum \<times> jsnum"
where
  "ty_loop F T tg x y ty acc =
     (if ty < int (height T) then
        let fy = y + ty
        in ty_loop F T tg x y (ty + 2) (tx_loop F T tg x fy ty 0 acc)
      else acc)"
  by pat_completeness auto
termination
  by (relation "measure (\<lambda>(F, T, tg, x, y, ty, acc). nat (int (height T) - ty))") auto

text \<open>The score of the window at \<open>(x, y)\<close>: \<^verbatim>\<open>mae = sum / cnt\<close>.\<close>

definition mae :: "image \<Rightarrow> image \<Rightarrow> nat list \<Rightarrow> int \<Rightarrow> int \<Rightarrow> jsnum" where
  "mae F T tg x y = (case ty_loop F T tg x y 0 (Fin 0, Fin 0) of (tot, cnt) \<Rightarrow> js_div tot cnt)"

text \<open>Lines 234 to 241: a strictly smaller score replaces \<^verbatim>\<open>best\<close>.\<close>

definition update_best :: "image \<Rightarrow> match \<Rightarrow> int \<Rightarrow> int \<Rightarrow> jsnum \<Rightarrow> match" where
  "update_best T best x y m =
     (if js_less m (score best)
      then \<lparr>best_x = x, best_y = y, score = m,
            box = Some \<lparr>box_x = x, box_y = y, box_w = int (width T), box_h = int (height T)\<rparr>\<rparr>
      else best)"

text \<open>
  The two outer loops (lines 211 and 212). With \<open>step = 0\<close> a loop whose condition holds
  never ends; not returning is the value \<open>None\<close>.
\<close>

function x_loop ::
  "nat \<Rightarrow> image \<Rightarrow> image \<Rightarrow> nat list \<Rightarrow> int \<Rightarrow> int \<Rightarrow> match \<Rightarrow> match option"
where
  "x_loop step F T tg y x best =
     (if x \<le> int (width F) - int (width T) then
        if step = 0 then None
        else x_loop step F T tg y (x + int step) (update_best T best x y (mae F T tg x y))
      else Some best)"
  by pat_completeness auto
termination
  by (relation "measure (\<lambda>(step, F, T, tg, y, x, best).
                  nat (int (width F) - int (width T) - x + 1))") auto

function y_loop ::
  "nat \<Rightarrow> image \<Rightarrow> image \<Rightarrow> nat list \<Rightarrow> int \<Rightarrow> match \<Rightarrow> match option"
where
  "y_loop step F T tg y best =
     (if y \<le> int (height F) - int (height T) then
        case x_loop step F T tg y 0 best of
          None \<Rightarrow> None
        | Some best' \<Rightarrow> if step = 0 then None else y_loop step F T tg (y + int step) best'
      else Some best)"
  by pat_completeness auto
termination
  by (relation "measure (\<lambda>(step, F, T, tg, y, best).
                  nat (int (height F) - int (height T) - y + 1))") auto

declare tx_loop.simps [simp del] ty_loop.simps [simp del] x_loop.simps [simp del]
  y_loop.simps [simp del]

text \<open>The initial value of \<^verbatim>\<open>best\<close> (line 210).\<close>

definition sentinel :: match where
  "sentinel = \<lparr>best_x = 0, best_y = 0, score = PInf, box = None\<rparr>"

definition findTemplate :: "image \<Rightarrow> image \<Rightarrow> nat \<Rightarrow> match option" where
  "findTemplate F T step = y_loop step F T (tGray T) 0 sentinel"

definition STEP :: nat where
  "STEP = 4"

section \<open>Detection state and the per-tick stabilizer\<close>

text \<open>The module-level state that the tick of \<^verbatim>\<open>startProcessing\<close> reads and writes.\<close>

record dstate =
  stableCount :: int
  lastBox :: "box option"
  detected :: bool

definition LOCK_FRAMES :: int where
  "LOCK_FRAMES = 6"

definition MSE_THRESHOLD :: jsnum where
  "MSE_THRESHOLD = Fin 2600"

text \<open>
  The condition \<^verbatim>\<open>match && match.score < MSE_THRESHOLD\<close>; a \<^verbatim>\<open>match\<close> that is
  \<^verbatim>\<open>null\<close> is \<open>None\<close>.
\<close>

definition is_hit :: "match option \<Rightarrow> bool" where
  "is_hit m = (case m of None \<Rightarrow> False | Some r \<Rightarrow> js_less (score r) MSE_THRESHOLD)"

text \<open>
  Lines 155 to 162 of \<^verbatim>\<open>startProcessing\<close>: the counter update, the assignment of
  \<^verbatim>\<open>lastBox\<close> on a hit, and the derived flag \<^verbatim>\<open>detected\<close>.
\<close>

definition stabilize :: "match option \<Rightarrow> dstate \<Rightarrow> dstate" where
  "stabilize m s =
     (let s' = (case m of
                  None \<Rightarrow> s\<lparr>stableCount := max 0 (stableCount s - 1)\<rparr>
                | Some r \<Rightarrow>
                    if js_less (score r) MSE_THRESHOLD
                    then s\<lparr>stableCount := min LOCK_FRAMES (stableCount s + 1),
                           lastBox := box r\<rparr>
                    else s\<lparr>stableCount := max 0 (stableCount s - 1)\<rparr>)
      in s'\<lparr>detected := (LOCK_FRAMES - 1 \<le> stableCount s')\<rparr>)"

text \<open>Consecutive ticks, the oldest first.\<close>

fun ticks :: "match option list \<Rightarrow> dstate \<Rightarrow> dstate" where
  "ticks [] s = s"
| "ticks (m # ms) s = ticks ms (stabilize m s)"

subsection \<open>Single ticks\<close>

lemma stableCount_stabilize:
  "stableCount (stabilize m s) =
     (if is_hit m then min LOCK_FRAMES (stableCount s + 1) else max 0 (stableCount s - 1))"
  by (simp add: stabilize_def is_hit_def Let_def split: option.split)

lemma detected_stabilize:
  "detected (stabilize m s) = (LOCK_FRAMES - 1 \<le> stableCount (stabilize m s))"
  by (simp add: stabilize_def Let_def split: option.split)

lemma ticks_append: "ticks (ms @ ns) s = ticks ns (ticks ms s)"
  by (induction ms arbitrary: s) simp_all

lemma detected_ticks:
  "ms \<noteq> [] \<Longrightarrow> detected (ticks ms s) = (LOCK_FRAMES - 1 \<le> stableCount (ticks ms s))"
proof (induction ms arbitrary: s rule: rev_induct)
  case Nil
  then show ?case by simp
next
  case (snoc m ms)
  show ?case by (simp add: ticks_append detected_stabilize)
qed

lemma stableCount_hits:
  "\<forall>m \<in> set ms. is_hit m \<Longrightarrow> stableCount s \<le> LOCK_FRAMES \<Longrightarrow>
   stableCount (ticks ms s) = min LOCK_FRAMES (stableCount s + int (length ms))"
proof (induction ms arbitrary: s)
  case Nil
  then show ?case by simp
next
  case (Cons m ms)
  have step: "stableCount (stabilize m s) = min LOCK_FRAMES (stableCount s + 1)"
    using Cons.prems(1) by (simp add: stableCount_stabilize)
  have "stableCount (ticks ms (stabilize m s)) =
          min LOCK_FRAMES (stableCount (stabilize m s) + int (length ms))"
    using Cons.prems(1) by (intro Cons.IH) (simp_all add: step)
  then show ?case using Cons.prems(2) by (simp add: step)
qed

lemma stableCount_misses:
  "\<forall>m \<in> set ms. \<not> is_hit m \<Longrightarrow> 0 \<le> stableCount s \<Longrightarrow>
   stableCount (ticks ms s) = max 0 (stableCount s - int (length ms))"
proof (induction ms arbitrary: s)
  case Nil
  then show ?case by simp
next
  case (Cons m ms)
  have step: "stableCount (stabilize m s) = max 0 (stableCount s - 1)"
    using Cons.prems(1) by (simp add: stableCount_stabilize)
  have "stableCount (ticks ms (stabilize m s)) =
          max 0 (stableCount (stabilize m s) - int (length ms))"
    using Cons.prems(1) by (intro Cons.IH) (simp_all add: step)
  then show ?case using Cons.prems(2) by (simp add: step)
qed

subsection \<open>Locking after consecutive hits\<close>

text \<open>
  Claim C3. Starting from \<open>stableCount = 0\<close>, after \<open>N \<ge> 1\<close> consecutive ticks that are
  hits (a match whose score is strictly below the threshold) the counter is
  \<open>min LOCK_FRAMES N\<close> and the flag \<open>detected\<close> is true exactly when \<open>N\<close> has reached
  \<open>LOCK_FRAMES - 1 = 5\<close>: it is false after 1 to 4 hits and true from the fifth on.
\<close>

theorem locked_after_hits:
  assumes "stableCount s = 0" and "\<forall>m \<in> set ms. is_hit m" and "ms \<noteq> []"
  shows "stableCount (ticks ms s) = min LOCK_FRAMES (int (length ms))
       \<and> detected (ticks ms s) = (LOCK_FRAMES - 1 \<le> int (length ms))
       \<and> LOCK_FRAMES - 1 = 5"
proof -
  have c: "stableCount (ticks ms s) = min LOCK_FRAMES (int (length ms))"
    using stableCount_hits [OF assms(2), of s] assms(1) by (simp add: LOCK_FRAMES_def)
  have "detected (ticks ms s) = (LOCK_FRAMES - 1 \<le> stableCount (ticks ms s))"
    using assms(3) by (rule detected_ticks)
  then show ?thesis using c by (auto simp: LOCK_FRAMES_def)
qed

definition hit_example :: "match option" where
  "hit_example = Some \<lparr>best_x = 8, best_y = 4, score = Fin 12,
                       box = Some \<lparr>box_x = 8, box_y = 4, box_w = 64, box_h = 64\<rparr>\<rparr>"

definition miss_example :: "match option" where
  "miss_example = Some \<lparr>best_x = 0, best_y = 0, score = PInf, box = None\<rparr>"

definition state0 :: dstate where
  "state0 = \<lparr>stableCount = 0, lastBox = None, detected = False\<rparr>"

lemma is_hit_hit_example: "is_hit hit_example"
  by (simp add: is_hit_def hit_example_def MSE_THRESHOLD_def)

lemma not_is_hit_miss_example: "\<not> is_hit miss_example"
  by (simp add: is_hit_def miss_example_def MSE_THRESHOLD_def)

theorem locked_after_hits_witness:
  "\<not> detected (ticks (replicate 4 hit_example) state0)
   \<and> detected (ticks (replicate 5 hit_example) state0)
   \<and> stableCount (ticks (replicate 5 hit_example) state0) = 5"
proof -
  have s0: "stableCount state0 = 0" by (simp add: state0_def)
  have h4: "\<forall>m \<in> set (replicate 4 hit_example). is_hit m"
    by (simp add: is_hit_hit_example)
  have h5: "\<forall>m \<in> set (replicate 5 hit_example). is_hit m"
    by (simp add: is_hit_hit_example)
  have n4: "replicate 4 hit_example \<noteq> []" by simp
  have n5: "replicate 5 hit_example \<noteq> []" by simp
  show ?thesis
    using locked_after_hits [OF s0 h4 n4] locked_after_hits [OF s0 h5 n5]
    by (simp add: LOCK_FRAMES_def)
qed

subsection \<open>Unlocking after consecutive misses\<close>

text \<open>
  Claim C4. Starting from the fully locked counter \<open>stableCount = LOCK_FRAMES = 6\<close>,
  after \<open>N \<ge> 1\<close> consecutive misses the counter is \<open>max 0 (6 - N)\<close> and \<open>detected\<close> is
  true exactly for \<open>N = 1\<close>: the first miss gives 5 (still locked), the second gives 4
  (unlocked), and it stays unlocked under further misses.
\<close>

theorem unlocked_after_misses:
  assumes "stableCount s = LOCK_FRAMES" and "\<forall>m \<in> set ms. \<not> is_hit m" and "ms \<noteq> []"
  shows "LOCK_FRAMES = 6
       \<and> stableCount (ticks ms s) = max 0 (6 - int (length ms))
       \<and> detected (ticks ms s) = (length ms = 1)"
proof -
  have c: "stableCount (ticks ms s) = max 0 (6 - int (length ms))"
    using stableCount_misses [OF assms(2), of s] assms(1) by (simp add: LOCK_FRAMES_def)
  have d: "detected (ticks ms s) = (LOCK_FRAMES - 1 \<le> stableCount (ticks ms s))"
    using assms(3) by (rule detected_ticks)
  have n: "1 \<le> int (length ms)" using assms(3) by (cases ms) simp_all
  have "(LOCK_FRAMES - 1 \<le> max 0 (6 - int (length ms))) = (length ms = 1)"
    using n by (auto simp: LOCK_FRAMES_def)
  then show ?thesis using c d by (simp add: LOCK_FRAMES_def)
qed

definition state_locked :: dstate where
  "state_locked = \<lparr>stableCount = 6,
                    lastBox = Some \<lparr>box_x = 8, box_y = 4, box_w = 64, box_h = 64\<rparr>,
                    detected = True\<rparr>"

theorem unlocked_after_misses_witness:
  "stableCount (ticks [miss_example] state_locked) = 5
   \<and> detected (ticks [miss_example] state_locked)
   \<and> stableCount (ticks [miss_example, None] state_locked) = 4
   \<and> \<not> detected (ticks [miss_example, None] state_locked)"
proof -
  have s6: "stableCount state_locked = LOCK_FRAMES"
    by (simp add: state_locked_def LOCK_FRAMES_def)
  have none: "\<not> is_hit None" by (simp add: is_hit_def)
  have m1: "\<forall>m \<in> set [miss_example]. \<not> is_hit m"
    by (simp add: not_is_hit_miss_example)
  have m2: "\<forall>m \<in> set [miss_example, None]. \<not> is_hit m"
    by (simp add: not_is_hit_miss_example none)
  show ?thesis
    using unlocked_after_misses [OF s6 m1] unlocked_after_misses [OF s6 m2]
    by simp
qed

subsection \<open>The counter stays in range\<close>

text \<open>
  Claim C5. If \<open>stableCount\<close> is in \<open>[0, LOCK_FRAMES]\<close> it is there again after any
  sequence of ticks, hits and misses in any order; each tick either adds one,
  saturating at \<open>LOCK_FRAMES\<close>, or subtracts one, stopping at 0.
\<close>

theorem stableCount_in_range:
  assumes "0 \<le> stableCount s" and "stableCount s \<le> LOCK_FRAMES"
  shows "0 \<le> stableCount (ticks ms s) \<and> stableCount (ticks ms s) \<le> LOCK_FRAMES
       \<and> stableCount (stabilize m s) =
           (if is_hit m then min LOCK_FRAMES (stableCount s + 1)
            else max 0 (stableCount s - 1))"
proof -
  have "0 \<le> stableCount (ticks ms s) \<and> stableCount (ticks ms s) \<le> LOCK_FRAMES"
    using assms
  proof (induction ms arbitrary: s)
    case Nil
    then show ?case by simp
  next
    case (Cons a ms)
    have "0 \<le> stableCount (stabilize a s)" "stableCount (stabilize a s) \<le> LOCK_FRAMES"
      using Cons.prems by (simp_all add: stableCount_stabilize LOCK_FRAMES_def)
    then show ?case using Cons.IH by simp
  qed
  then show ?thesis by (simp add: stableCount_stabilize)
qed

theorem stableCount_in_range_witness:
  "0 \<le> stableCount (ticks [hit_example, miss_example, None, hit_example] state_locked)
   \<and> stableCount (ticks [hit_example, miss_example, None, hit_example] state_locked) \<le> 6
   \<and> stableCount (stabilize hit_example state_locked) = 6
   \<and> stableCount (stabilize None state0) = 0"
proof -
  have lo: "0 \<le> stableCount state_locked" by (simp add: state_locked_def)
  have hi: "stableCount state_locked \<le> LOCK_FRAMES"
    by (simp add: state_locked_def LOCK_FRAMES_def)
  have lo0: "0 \<le> stableCount state0" by (simp add: state0_def)
  have hi0: "stableCount state0 \<le> LOCK_FRAMES" by (simp add: state0_def LOCK_FRAMES_def)
  have none: "\<not> is_hit None" by (simp add: is_hit_def)
  show ?thesis
    using stableCount_in_range [OF lo hi, of "[hit_example, miss_example, None, hit_example]"
            hit_example]
          stableCount_in_range [OF lo0 hi0, of "[]" None]
    by (simp add: is_hit_hit_example none LOCK_FRAMES_def state_locked_def state0_def)
qed

subsection \<open>The last box survives a miss\<close>

text \<open>
  Claim C9. On a miss, that is when there is no match object or its score is not
  strictly below 2600, the tick leaves \<open>lastBox\<close> as it was and only decrements the
  counter (not below 0); on a hit \<open>lastBox\<close> becomes the box of the current match.
\<close>

theorem lastBox_stabilize:
  "((m = None \<or> (\<exists>r. m = Some r \<and> \<not> js_less (score r) (Fin 2600))) \<longrightarrow>
      lastBox (stabilize m s) = lastBox s
      \<and> stableCount (stabilize m s) = max 0 (stableCount s - 1))
   \<and> (\<forall>r. m = Some r \<and> js_less (score r) (Fin 2600) \<longrightarrow>
        lastBox (stabilize m s) = box r)"
  by (auto simp: stabilize_def MSE_THRESHOLD_def Let_def split: option.split)

theorem lastBox_stabilize_witness:
  "lastBox (stabilize miss_example state_locked) = lastBox state_locked
   \<and> stableCount (stabilize miss_example state_locked) = 5
   \<and> lastBox (stabilize None state_locked) = lastBox state_locked
   \<and> lastBox (stabilize hit_example state0)
       = Some \<lparr>box_x = 8, box_y = 4, box_w = 64, box_h = 64\<rparr>"
  using lastBox_stabilize [of miss_example state_locked]
        lastBox_stabilize [of None state_locked]
        lastBox_stabilize [of hit_example state0]
  by (simp add: miss_example_def hit_example_def state_locked_def)

section \<open>The grayscale conversion\<close>

text \<open>The three weights as binary64 values.\<close>

lemma fl_299: "fl (299 / 1000) = Fin (5386305154335113 / 18014398509481984)"
  using fl_eqI [of "299 / 1000" "-2" "-54" 5386305154335113]
  by (simp add: power_int_minus)

lemma fl_587: "fl (587 / 1000) = Fin (2643612981266481 / 4503599627370496)"
  using fl_eqI [of "587 / 1000" "-1" "-53" 5287225962532962]
  by (simp add: power_int_minus)

lemma fl_114: "fl (114 / 1000) = Fin (8214565720323785 / 72057594037927936)"
  using fl_eqI [of "114 / 1000" "-4" "-56" 8214565720323785]
  by (simp add: power_int_minus)

text \<open>
  For bytes the weighted sum stays finite, and its three roundings of products and two
  roundings of sums move it by less than \<open>10\<^sup>-\<^sup>6\<close> from the exact value.
\<close>

lemma weighted_sum_bounds:
  fixes R G B :: nat
  assumes "R \<le> 255" "G \<le> 255" "B \<le> 255"
  defines "E \<equiv> (299 * of_nat R + 587 * of_nat G + 114 * of_nat B) / (1000::rat)"
  shows "\<exists>s. js_add (js_add (js_mul (Fin (of_nat R)) (fl (299 / 1000)))
                             (js_mul (Fin (of_nat G)) (fl (587 / 1000))))
                     (js_mul (Fin (of_nat B)) (fl (114 / 1000))) = Fin s
             \<and> 0 \<le> s \<and> \<bar>s - E\<bar> < 1 / 1000000"
proof -
  define k1 :: rat where "k1 = 5386305154335113 / 18014398509481984"
  define k2 :: rat where "k2 = 2643612981266481 / 4503599627370496"
  define k3 :: rat where "k3 = 8214565720323785 / 72057594037927936"
  define u :: rat where "u = 2 powi (- 44)"
  have u: "u = 1 / 17592186044416" by (simp add: u_def power_int_minus)
  have ub: "0 \<le> u" "8 * u < 1 / 1000000" by (simp_all add: u)
  have r: "(0::rat) \<le> of_nat R" "(of_nat R :: rat) \<le> 255"
    and g: "(0::rat) \<le> of_nat G" "(of_nat G :: rat) \<le> 255"
    and b: "(0::rat) \<le> of_nat B" "(of_nat B :: rat) \<le> 255"
    using assms(1-3) by simp_all
  have q1: "0 \<le> of_nat R * k1" "of_nat R * k1 < 1024"
    using r by (simp_all add: k1_def)
  have q2: "0 \<le> of_nat G * k2" "of_nat G * k2 < 1024"
    using g by (simp_all add: k2_def)
  have q3: "0 \<le> of_nat B * k3" "of_nat B * k3 < 1024"
    using b by (simp_all add: k3_def)
  obtain p1 where p1: "fl (of_nat R * k1) = Fin p1" "0 \<le> p1" "\<bar>p1 - of_nat R * k1\<bar> \<le> u"
    using fl_small [OF q1] unfolding u_def by blast
  obtain p2 where p2: "fl (of_nat G * k2) = Fin p2" "0 \<le> p2" "\<bar>p2 - of_nat G * k2\<bar> \<le> u"
    using fl_small [OF q2] unfolding u_def by blast
  obtain p3 where p3: "fl (of_nat B * k3) = Fin p3" "0 \<le> p3" "\<bar>p3 - of_nat B * k3\<bar> \<le> u"
    using fl_small [OF q3] unfolding u_def by blast
  have e1: "\<bar>of_nat R * k1 - 299 * of_nat R / 1000\<bar> \<le> u"
    using r by (simp add: k1_def u abs_le_iff)
  have e2: "\<bar>of_nat G * k2 - 587 * of_nat G / 1000\<bar> \<le> u"
    using g by (simp add: k2_def u abs_le_iff)
  have e3: "\<bar>of_nat B * k3 - 114 * of_nat B / 1000\<bar> \<le> u"
    using b by (simp add: k3_def u abs_le_iff)
  have a1: "\<bar>p1 - 299 * of_nat R / 1000\<bar> \<le> 2 * u" using p1(3) e1 by linarith
  have a2: "\<bar>p2 - 587 * of_nat G / 1000\<bar> \<le> 2 * u" using p2(3) e2 by linarith
  have a3: "\<bar>p3 - 114 * of_nat B / 1000\<bar> \<le> 2 * u" using p3(3) e3 by linarith
  have "p1 + p2 < 1024" using a1 a2 r g ub by linarith
  moreover have "0 \<le> p1 + p2" using p1(2) p2(2) by simp
  ultimately obtain s1 where s1: "fl (p1 + p2) = Fin s1" "0 \<le> s1" "\<bar>s1 - (p1 + p2)\<bar> \<le> u"
    using fl_small [of "p1 + p2"] unfolding u_def by blast
  have "s1 + p3 < 1024" using s1(3) a1 a2 a3 r g b ub by linarith
  moreover have "0 \<le> s1 + p3" using s1(2) p3(2) by simp
  ultimately obtain s2 where s2: "fl (s1 + p3) = Fin s2" "0 \<le> s2" "\<bar>s2 - (s1 + p3)\<bar> \<le> u"
    using fl_small [of "s1 + p3"] unfolding u_def by blast
  have "E = 299 * of_nat R / 1000 + 587 * of_nat G / 1000 + 114 * of_nat B / 1000"
    by (simp add: E_def add_divide_distrib)
  then have "\<bar>s2 - E\<bar> \<le> 8 * u"
    using s2(3) s1(3) a1 a2 a3 by linarith
  then have "\<bar>s2 - E\<bar> < 1 / 1000000" using ub by linarith
  moreover have "js_add (js_add (js_mul (Fin (of_nat R)) (fl (299 / 1000)))
                             (js_mul (Fin (of_nat G)) (fl (587 / 1000))))
                     (js_mul (Fin (of_nat B)) (fl (114 / 1000))) = Fin s2"
    unfolding fl_299 fl_587 fl_114 js_mul.simps k1_def [symmetric] k2_def [symmetric]
      k3_def [symmetric] p1(1) p2(1) p3(1) js_add.simps s1(1) s2(1)
    by (rule refl)
  ultimately show ?thesis using s2(2) by blast
qed


lemma to_int32_small:
  assumes "0 \<le> s" and "s < 256"
  shows "to_int32 (Fin s) = \<lfloor>s\<rfloor>"
proof -
  have "0 \<le> \<lfloor>s\<rfloor>" using assms(1) by simp
  moreover have "\<lfloor>s\<rfloor> < 256" using assms(2) by (simp add: floor_less_iff)
  ultimately show ?thesis using assms(1) by (simp add: Let_def)
qed

text \<open>The exact weighted sum, scaled by 1000.\<close>

definition weighted :: "nat \<Rightarrow> nat \<Rightarrow> nat \<Rightarrow> int" where
  "weighted R G B = 299 * int R + 587 * int G + 114 * int B"

lemma luma_bounds:
  fixes R G B :: nat
  assumes "R \<le> 255" "G \<le> 255" "B \<le> 255"
  defines "v \<equiv> luma (Fin (of_nat R)) (Fin (of_nat G)) (Fin (of_nat B))"
  shows "0 \<le> v" "v \<le> 255"
    and "weighted R G B div 1000 - 1 \<le> v" "v \<le> weighted R G B div 1000"
    and "weighted R G B mod 1000 \<noteq> 0 \<Longrightarrow> v = weighted R G B div 1000"
proof -
  define n where "n = weighted R G B"
  define q where "q = n div 1000"
  define m where "m = n mod 1000"
  define E :: rat where "E = (299 * of_nat R + 587 * of_nat G + 114 * of_nat B) / 1000"
  obtain s where s: "js_add (js_add (js_mul (Fin (of_nat R)) (fl (299 / 1000)))
                                    (js_mul (Fin (of_nat G)) (fl (587 / 1000))))
                            (js_mul (Fin (of_nat B)) (fl (114 / 1000))) = Fin s"
      "0 \<le> s" "\<bar>s - E\<bar> < 1 / 1000000"
    using weighted_sum_bounds [OF assms(1-3)] unfolding E_def by blast
  have nqm: "n = 1000 * q + m" and m: "0 \<le> m" "m \<le> 999"
    by (simp_all add: q_def m_def)
  have "(of_int n :: rat) = 299 * of_nat R + 587 * of_nat G + 114 * of_nat B"
    by (simp add: n_def weighted_def)
  then have E: "E = of_int q + of_int m / 1000"
    by (simp add: E_def nqm add_divide_distrib)
  have mr: "(0::rat) \<le> of_int m" "(of_int m :: rat) \<le> 999" using m by simp_all
  have "n \<le> 255000" using assms(1-3) by (simp add: n_def weighted_def)
  then have q255: "q \<le> 255" by (simp add: q_def)
  have "0 \<le> n" by (simp add: n_def weighted_def)
  then have q0: "0 \<le> q" by (simp add: q_def)
  have hi: "s < of_int q + 1" using s(3) E mr by linarith
  have lo: "of_int q - 1 < s" using s(3) E mr by linarith
  have "s < 256"
  proof -
    have "(of_int q :: rat) \<le> 255" using q255 by simp
    then show ?thesis using hi by linarith
  qed
  then have v: "v = \<lfloor>s\<rfloor>" 
    unfolding v_def luma_def s(1) using s(2) by (rule to_int32_small [rotated])
  show "0 \<le> v" using s(2) by (simp add: v)
  have "s < of_int (q + 1)" using hi by simp
  then have "\<lfloor>s\<rfloor> < q + 1" by (rule iffD2 [OF floor_less_iff])
  then have fq: "\<lfloor>s\<rfloor> \<le> q" by simp
  have "of_int (q - 1) \<le> s" using lo by simp
  then have fq': "q - 1 \<le> \<lfloor>s\<rfloor>" by (rule iffD2 [OF le_floor_iff])
  show "v \<le> 255" unfolding v using fq q255 by linarith
  show "weighted R G B div 1000 - 1 \<le> v" unfolding v using fq' by (simp only: q_def n_def)
  show "v \<le> weighted R G B div 1000" unfolding v using fq by (simp only: q_def n_def)
  show "v = weighted R G B div 1000" if "weighted R G B mod 1000 \<noteq> 0"
  proof -
    have "1 \<le> m" using that m(1) by (simp add: m_def n_def)
    then have "(1::rat) \<le> of_int m" by simp
    then have "of_int q \<le> s" using s(3) E by linarith
    then have "q \<le> \<lfloor>s\<rfloor>" by (rule iffD2 [OF le_floor_iff])
    then have "\<lfloor>s\<rfloor> = q" using fq by linarith
    then show ?thesis by (simp only: v q_def n_def)
  qed
qed

section \<open>Frames smaller than the template\<close>

lemma x_loop_narrow:
  "int (width F) < int (width T) \<Longrightarrow> x_loop step F T tg y 0 best = Some best"
  by (subst x_loop.simps) simp

lemma y_loop_narrow:
  "int (width F) < int (width T) \<Longrightarrow> 0 < step \<Longrightarrow> y_loop step F T tg y best = Some best"
proof (induction step F T tg y best rule: y_loop.induct)
  case (1 step F T tg y best)
  show ?case
  proof (cases "y \<le> int (height F) - int (height T)")
    case True
    have x: "x_loop step F T tg y 0 best = Some best" using "1.prems"(1) by (rule x_loop_narrow)
    have "y_loop step F T tg (y + int step) best = Some best"
      using "1.IH" [OF True x] "1.prems" by simp
    then show ?thesis using True x "1.prems"(2) by (subst y_loop.simps) simp
  next
    case False
    then show ?thesis by (subst y_loop.simps) simp
  qed
qed

lemma findTemplate_small:
  assumes "0 < step" and "width F < width T \<or> height F < height T"
  shows "findTemplate F T step = Some sentinel"
proof (cases "height F < height T")
  case True
  then show ?thesis unfolding findTemplate_def by (subst y_loop.simps) simp
next
  case False
  then have "int (width F) < int (width T)" using assms(2) by simp
  then show ?thesis unfolding findTemplate_def using assms(1) by (rule y_loop_narrow)
qed


text \<open>
  Lines 153 to 162 of the tick. \<^verbatim>\<open>findTemplate\<close> first reads the frame canvas and the
  template canvas with \<^verbatim>\<open>getImageData\<close> (lines 193 and 194), which throws
  \<open>IndexSizeError\<close> for a canvas of width or height 0: the exception leaves the tick, and
  the stabilizer of lines 155 to 162 is not reached. Otherwise the match of the frame
  goes to the stabilizer. \<open>None\<close> is a search that does not return.
\<close>

datatype error = IndexSizeError

definition process_frame :: "image \<Rightarrow> image \<Rightarrow> dstate \<Rightarrow> (error + dstate) option" where
  "process_frame F T s =
     (if width F = 0 \<or> height F = 0 \<or> width T = 0 \<or> height T = 0
      then Some (Inl IndexSizeError)
      else case findTemplate F T STEP of
             None \<Rightarrow> None
           | Some m \<Rightarrow> Some (Inr (stabilize (Some m) s)))"

text \<open>
  A 192 by 48 frame, as a 1920 by 480 video gives, against the 64 by 64 template.
\<close>

definition frame48 :: image where
  "frame48 = \<lparr>width = 192, height = 48, data = replicate (192 * 48 * 4) 0\<rparr>"

definition tmpl64 :: image where
  "tmpl64 = \<lparr>width = 64, height = 64, data = replicate (64 * 64 * 4) 0\<rparr>"

text \<open>
  For this frame, lower than the template, \<^verbatim>\<open>findTemplate\<close> does not signal the absence of
  a match by a value of its own: the loops run zero times and the object returned is
  the initial \<^verbatim>\<open>best\<close>, with score \<open>+Infinity\<close>, which the tick hands to the stabilizer.
\<close>

theorem small_frame_sentinel_counterexample:
  "findTemplate frame48 tmpl64 STEP
     = Some \<lparr>best_x = 0, best_y = 0, score = PInf, box = None\<rparr>
   \<and> process_frame frame48 tmpl64 state0
     = Some (Inr (stabilize (Some \<lparr>best_x = 0, best_y = 0, score = PInf, box = None\<rparr>)
                     state0))"
proof -
  have "findTemplate frame48 tmpl64 STEP = Some sentinel"
    by (rule findTemplate_small) (simp_all add: STEP_def frame48_def tmpl64_def)
  moreover have "width frame48 = 192" "height frame48 = 48" "width tmpl64 = 64" "height tmpl64 = 64"
    by (simp_all add: frame48_def tmpl64_def)
  ultimately show ?thesis by (simp add: process_frame_def sentinel_def)
qed

text \<open>
  Claim C1, as amended. For every frame and template of positive width and height, the
  frame strictly smaller than the template in width or in height, and every positive
  stride, \<^verbatim>\<open>findTemplate\<close> checks no size: it scans no window and returns the initial
  object \<open>{x: 0, y: 0, score: +Infinity, box: null}\<close>. No box is yielded, and the tick
  treats the result as a miss, because \<open>+Infinity < 2600\<close> is false: the counter is
  decremented (not below 0) and \<open>lastBox\<close> is unchanged. Canvases of width or height 0,
  for which \<^verbatim>\<open>getImageData\<close> throws, are left out.
\<close>

theorem small_frame_sentinel:
  assumes "width F < width T \<or> height F < height T" and "0 < step"
    and "0 < width F" and "0 < height F" and "0 < width T" and "0 < height T"
  shows "findTemplate F T step = Some \<lparr>best_x = 0, best_y = 0, score = PInf, box = None\<rparr>
       \<and> process_frame F T s
         = Some (Inr (s\<lparr>stableCount := max 0 (stableCount s - 1),
                         detected := (LOCK_FRAMES - 1 \<le> max 0 (stableCount s - 1))\<rparr>))"
proof -
  have "findTemplate F T step = Some sentinel"
    using assms(2,1) by (rule findTemplate_small)
  moreover have "findTemplate F T STEP = Some sentinel"
    using assms(1) by (intro findTemplate_small) (simp_all add: STEP_def)
  ultimately show ?thesis
    using assms(3-6)
    by (simp add: process_frame_def sentinel_def stabilize_def MSE_THRESHOLD_def Let_def)
qed

theorem small_frame_sentinel_witness:
  "findTemplate frame48 tmpl64 4 = Some \<lparr>best_x = 0, best_y = 0, score = PInf, box = None\<rparr>
   \<and> process_frame frame48 tmpl64 state_locked
     = Some (Inr (state_locked\<lparr>stableCount := 5, detected := True\<rparr>))"
proof -
  have small: "width frame48 < width tmpl64 \<or> height frame48 < height tmpl64"
    by (simp add: frame48_def tmpl64_def)
  have step: "0 < (4::nat)" by simp
  have pos: "0 < width frame48" "0 < height frame48" "0 < width tmpl64" "0 < height tmpl64"
    by (simp_all add: frame48_def tmpl64_def)
  show ?thesis
    using small_frame_sentinel [OF small step pos, of state_locked]
    by (simp add: state_locked_def LOCK_FRAMES_def)
qed

text \<open>A frame canvas of height 0 ends the tick with the exception.\<close>

lemma process_frame_empty:
  "height F = 0 \<Longrightarrow> process_frame F T s = Some (Inl IndexSizeError)"
  by (simp add: process_frame_def)

section \<open>Luminance of a pixel\<close>

text \<open>The conversion of the program on the three colour bytes of a pixel.\<close>

definition byte_luma :: "byte \<Rightarrow> byte \<Rightarrow> byte \<Rightarrow> int" where
  "byte_luma r g b = luma (Fin (of_nat (unat r))) (Fin (of_nat (unat g))) (Fin (of_nat (unat b)))"

lemma unat_byte_le: "unat (w :: byte) \<le> 255"
  using unsigned_less [of w, where ?'a = nat] by simp

lemma byte_luma_range: "0 \<le> byte_luma r g b" "byte_luma r g b \<le> 255"
  unfolding byte_luma_def
  by (rule luma_bounds(1,2) [OF unat_byte_le unat_byte_le unat_byte_le])+

text \<open>
  The formula of the specification, \<open>floor(0.299 R + 0.587 G + 0.114 B)\<close>, in exact
  arithmetic: the weighted sum as a rational number, and its floor.
\<close>

definition exact_sum :: "byte \<Rightarrow> byte \<Rightarrow> byte \<Rightarrow> rat" where
  "exact_sum r g b =
     299 / 1000 * of_nat (unat r) + 587 / 1000 * of_nat (unat g) + 114 / 1000 * of_nat (unat b)"

definition exact_luma :: "byte \<Rightarrow> byte \<Rightarrow> byte \<Rightarrow> int" where
  "exact_luma r g b = \<lfloor>exact_sum r g b\<rfloor>"

lemma exact_sum_weighted:
  "exact_sum r g b = of_int (weighted (unat r) (unat g) (unat b)) / of_int 1000"
  by (simp add: exact_sum_def weighted_def add_divide_distrib)

lemma exact_luma_div: "exact_luma r g b = weighted (unat r) (unat g) (unat b) div 1000"
  unfolding exact_luma_def exact_sum_weighted by (rule floor_divide_of_int_eq)

lemma exact_sum_integer:
  assumes "of_int (exact_luma r g b) \<noteq> exact_sum r g b"
  shows "weighted (unat r) (unat g) (unat b) mod 1000 \<noteq> 0"
proof
  assume "weighted (unat r) (unat g) (unat b) mod 1000 = 0"
  then have "1000 dvd weighted (unat r) (unat g) (unat b)" by (simp only: mod_eq_0_iff_dvd)
  then obtain q where q: "weighted (unat r) (unat g) (unat b) = 1000 * q" by (rule dvdE)
  have s: "exact_sum r g b = of_int q" unfolding exact_sum_weighted q by simp
  then have "exact_luma r g b = q" unfolding exact_luma_def by simp
  then show False using assms s by simp
qed

lemma byte_luma_exact:
  "exact_luma r g b - 1 \<le> byte_luma r g b" "byte_luma r g b \<le> exact_luma r g b"
  "of_int (exact_luma r g b) \<noteq> exact_sum r g b \<Longrightarrow> byte_luma r g b = exact_luma r g b"
proof -
  note b = luma_bounds [OF unat_byte_le unat_byte_le unat_byte_le, of r g b]
  show "exact_luma r g b - 1 \<le> byte_luma r g b" "byte_luma r g b \<le> exact_luma r g b"
    using b(3,4) by (simp_all add: byte_luma_def exact_luma_div)
  show "byte_luma r g b = exact_luma r g b" if "of_int (exact_luma r g b) \<noteq> exact_sum r g b"
    using b(5) [OF exact_sum_integer [OF that]] by (simp add: byte_luma_def exact_luma_div)
qed

lemma channel_in_range:
  "i < length d \<Longrightarrow> channel d (int i) = Fin (of_nat (unat (d ! i)))"
  by (simp add: channel_def)

lemma tGray_nth:
  assumes "length (data T) = 4 * (width T * height T)" and "i < width T * height T"
  shows "tGray T ! i = nat (byte_luma (data T ! (4 * i)) (data T ! (4 * i + 1)) (data T ! (4 * i + 2)))"
proof -
  have r: "4 * i < length (data T)" "4 * i + 1 < length (data T)" "4 * i + 2 < length (data T)"
    using assms by simp_all
  have c0: "channel (data T) (int i * 4 + 0) = Fin (of_nat (unat (data T ! (4 * i))))"
    using r(1) by (simp add: channel_def nat_mult_distrib mult.commute)
  have c1: "channel (data T) (int i * 4 + 1) = Fin (of_nat (unat (data T ! (4 * i + 1))))"
    using r(2) by (simp add: channel_def nat_add_distrib nat_mult_distrib mult.commute)
  have c2: "channel (data T) (int i * 4 + 2) = Fin (of_nat (unat (data T ! (4 * i + 2))))"
    using r(3) by (simp add: channel_def nat_add_distrib nat_mult_distrib mult.commute)
  have "tGray T ! i = clamp8 (byte_luma (data T ! (4 * i)) (data T ! (4 * i + 1)) (data T ! (4 * i + 2)))"
    using assms(2) unfolding tGray_def byte_luma_def by (simp only: nth_map_upt c0 c1 c2 length_upt minus_nat.diff_0 add_0 nth_map nth_upt)
  then show ?thesis
    using byte_luma_range [of "data T ! (4 * i)" "data T ! (4 * i + 1)" "data T ! (4 * i + 2)"]
    by (simp add: clamp8_def)
qed

definition tmpl1 :: image where
  "tmpl1 = \<lparr>width = 1, height = 1, data = [1, 1, 1, 255]\<rparr>"

text \<open>
  The conversion is not the floor of the exact weighted sum for every triple. For
  \<open>(1, 1, 1)\<close> the exact sum is 1, but in binary64 \<open>0.299 + 0.587\<close> rounds to a value
  whose sum with \<open>0.114\<close> rounds to \<open>1 - 2\<^sup>-\<^sup>5\<^sup>3\<close>, and the conversion gives 0. For
  \<open>(128, 128, 128)\<close> the exact sum is 128 and the conversion gives 127.
\<close>

lemma fl_id_299: "fl (5386305154335113 / 18014398509481984) = Fin (5386305154335113 / 18014398509481984)"
  using fl_eqI [of "5386305154335113 / 18014398509481984" "- 2" "- 54" 5386305154335113]
  by (simp add: power_int_minus)

lemma fl_id_587: "fl (2643612981266481 / 4503599627370496) = Fin (2643612981266481 / 4503599627370496)"
  using fl_eqI [of "2643612981266481 / 4503599627370496" "- 1" "- 53" 5287225962532962]
  by (simp add: power_int_minus)

lemma fl_id_114: "fl (8214565720323785 / 72057594037927936) = Fin (8214565720323785 / 72057594037927936)"
  using fl_eqI [of "8214565720323785 / 72057594037927936" "- 4" "- 56" 8214565720323785]
  by (simp add: power_int_minus)

lemma fl_sum_rg: "fl (15960757079401037 / 18014398509481984) = Fin (3990189269850259 / 4503599627370496)"
  using fl_eqI [of "15960757079401037 / 18014398509481984" "- 1" "- 53" 7980378539700518]
  by (simp add: power_int_minus)

lemma fl_sum_rgb: "fl (72057594037927929 / 72057594037927936) = Fin (9007199254740991 / 9007199254740992)"
  using fl_eqI [of "72057594037927929 / 72057594037927936" "- 1" "- 53" 9007199254740991]
  by (simp add: power_int_minus)

lemma fl_128_299: "fl (5386305154335113 / 140737488355328) = Fin (5386305154335113 / 140737488355328)"
  using fl_eqI [of "5386305154335113 / 140737488355328" "5" "- 47" 5386305154335113]
  by (simp add: power_int_minus)

lemma fl_128_587: "fl (2643612981266481 / 35184372088832) = Fin (2643612981266481 / 35184372088832)"
  using fl_eqI [of "2643612981266481 / 35184372088832" "6" "- 46" 5287225962532962]
  by (simp add: power_int_minus)

lemma fl_128_114: "fl (8214565720323785 / 562949953421312) = Fin (8214565720323785 / 562949953421312)"
  using fl_eqI [of "8214565720323785 / 562949953421312" "3" "- 49" 8214565720323785]
  by (simp add: power_int_minus)

lemma fl_128_rg: "fl (15960757079401037 / 140737488355328) = Fin (3990189269850259 / 35184372088832)"
  using fl_eqI [of "15960757079401037 / 140737488355328" "6" "- 46" 7980378539700518]
  by (simp add: power_int_minus)

lemma fl_128_rgb: "fl (72057594037927929 / 562949953421312) = Fin (9007199254740991 / 70368744177664)"
  using fl_eqI [of "72057594037927929 / 562949953421312" "6" "- 46" 9007199254740991]
  by (simp add: power_int_minus)

lemma luma_1: "luma (Fin 1) (Fin 1) (Fin 1) = 0"
  unfolding luma_def fl_299 fl_587 fl_114
  by (simp add: fl_id_299 fl_id_587 fl_id_114 fl_sum_rg fl_sum_rgb Let_def floor_eq_iff)

lemma luma_128: "luma (Fin 128) (Fin 128) (Fin 128) = 127"
  unfolding luma_def fl_299 fl_587 fl_114
  by (simp add: fl_128_299 fl_128_587 fl_128_114 fl_128_rg fl_128_rgb Let_def floor_eq_iff)

theorem grayscale_exact_floor_counterexample:
  "byte_luma 1 1 1 = 0 \<and> exact_luma 1 1 1 = 1
   \<and> byte_luma 128 128 128 = 127 \<and> exact_luma 128 128 128 = 128"
  by (simp add: byte_luma_def luma_1 luma_128 exact_luma_div weighted_def)

text \<open>
  Claim C8, as amended. For every RGB triple of bytes the conversion of the program,
  \<^verbatim>\<open>(r * 0.299 + g * 0.587 + b * 0.114) | 0\<close> evaluated in binary64, is the floor of
  the exact weighted sum \<open>0.299 R + 0.587 G + 0.114 B\<close> or one less than it, and it is
  that floor whenever the exact sum is not an integer. It is an integer in \<open>[0, 255]\<close>
  and a function of the triple alone, so equal triples give equal luminance. The
  template buffer \<open>tGray\<close> has one entry for each pixel, and entry \<open>i\<close> is the conversion
  of pixel \<open>i\<close>.
\<close>

theorem grayscale_conversion:
  "exact_luma r g b - 1 \<le> byte_luma r g b \<and> byte_luma r g b \<le> exact_luma r g b
   \<and> (of_int (exact_luma r g b) \<noteq> exact_sum r g b \<longrightarrow> byte_luma r g b = exact_luma r g b)
   \<and> 0 \<le> byte_luma r g b \<and> byte_luma r g b \<le> 255
   \<and> length (tGray T) = width T * height T
   \<and> (length (data T) = 4 * (width T * height T) \<longrightarrow>
        (\<forall>i < width T * height T.
           int (tGray T ! i)
             = byte_luma (data T ! (4 * i)) (data T ! (4 * i + 1)) (data T ! (4 * i + 2))))"
  using byte_luma_range [of r g b] byte_luma_exact [of r g b] tGray_nth [of T]
    byte_luma_range(1)
  by (simp add: tGray_def)

theorem grayscale_conversion_witness:
  "of_int (exact_luma 0 0 100) \<noteq> exact_sum 0 0 100
   \<and> byte_luma 0 0 100 = 11
   \<and> length (tGray tmpl1) = 1 \<and> int (tGray tmpl1 ! 0) = byte_luma 1 1 1"
proof -
  have s: "exact_sum 0 0 100 = 57 / 5" by (simp add: exact_sum_def)
  have e: "exact_luma 0 0 100 = 11" by (simp add: exact_luma_div weighted_def)
  have ne: "of_int (exact_luma 0 0 100) \<noteq> exact_sum 0 0 100" by (simp add: s e)
  show ?thesis
    using grayscale_conversion [of 0 0 100 tmpl1] ne
    by (simp add: e tmpl1_def)
qed


section \<open>From processing space to the screen\<close>

text \<open>
  What \<^verbatim>\<open>getBoundingClientRect\<close> gives for the video element, and the rectangle that
  \<^verbatim>\<open>positionOverlay\<close> writes into the style of the overlay.
\<close>

record domrect =
  rect_left :: jsnum
  rect_top :: jsnum
  rect_width :: jsnum
  rect_height :: jsnum

record overlay =
  px :: jsnum
  py :: jsnum
  pw :: jsnum
  ph :: jsnum

text \<open>
  \<^verbatim>\<open>positionOverlay\<close> (lines 248 to 289); the intrinsic size of the video and the
  rectangle of the element, which the source reads from the page, are parameters.
\<close>

definition positionOverlay ::
  "box \<Rightarrow> jsnum \<Rightarrow> jsnum \<Rightarrow> nat \<Rightarrow> nat \<Rightarrow> domrect \<Rightarrow> overlay" where
  "positionOverlay b procW procH vw vh rect =
     (let elW = rect_width rect;
          elH = rect_height rect;
          srcRatio = js_div (Fin (of_nat vw)) (Fin (of_nat vh));
          elRatio = js_div elW elH;
          (renderW, renderH, offsetX, offsetY) =
            (if js_less elRatio srcRatio
             then let renderW = elW; renderH = js_div elW srcRatio
                  in (renderW, renderH, Fin 0, js_div (js_sub elH renderH) (Fin 2))
             else let renderH = elH; renderW = js_mul elH srcRatio
                  in (renderW, renderH, js_div (js_sub elW renderW) (Fin 2), Fin 0));
          sx = js_div renderW procW;
          sy = js_div renderH procH
      in \<lparr>px = js_add (js_add (rect_left rect) offsetX) (js_mul (Fin (of_int (box_x b))) sx),
          py = js_add (js_add (rect_top rect) offsetY) (js_mul (Fin (of_int (box_y b))) sy),
          pw = js_mul (Fin (of_int (box_w b))) sx,
          ph = js_mul (Fin (of_int (box_h b))) sy\<rparr>)"

text \<open>
  The mapping as the specification words it: the comparison of the two aspect ratios,
  the rendered size, the two letterbox offsets, the two scale factors and the output
  rectangle.
\<close>

definition contain_wider :: "nat \<Rightarrow> nat \<Rightarrow> jsnum \<Rightarrow> jsnum \<Rightarrow> bool" where
  "contain_wider vw vh elWidth elHeight =
     js_less (js_div elWidth elHeight) (js_div (Fin (of_nat vw)) (Fin (of_nat vh)))"

definition renderedWidth :: "nat \<Rightarrow> nat \<Rightarrow> jsnum \<Rightarrow> jsnum \<Rightarrow> jsnum" where
  "renderedWidth vw vh elWidth elHeight =
     (if contain_wider vw vh elWidth elHeight then elWidth
      else js_mul elHeight (js_div (Fin (of_nat vw)) (Fin (of_nat vh))))"

definition renderedHeight :: "nat \<Rightarrow> nat \<Rightarrow> jsnum \<Rightarrow> jsnum \<Rightarrow> jsnum" where
  "renderedHeight vw vh elWidth elHeight =
     (if contain_wider vw vh elWidth elHeight
      then js_div elWidth (js_div (Fin (of_nat vw)) (Fin (of_nat vh)))
      else elHeight)"

definition letterbox_offsetX :: "nat \<Rightarrow> nat \<Rightarrow> jsnum \<Rightarrow> jsnum \<Rightarrow> jsnum" where
  "letterbox_offsetX vw vh elWidth elHeight =
     (if contain_wider vw vh elWidth elHeight then Fin 0
      else js_div (js_sub elWidth (renderedWidth vw vh elWidth elHeight)) (Fin 2))"

definition letterbox_offsetY :: "nat \<Rightarrow> nat \<Rightarrow> jsnum \<Rightarrow> jsnum \<Rightarrow> jsnum" where
  "letterbox_offsetY vw vh elWidth elHeight =
     (if contain_wider vw vh elWidth elHeight
      then js_div (js_sub elHeight (renderedHeight vw vh elWidth elHeight)) (Fin 2)
      else Fin 0)"

definition CoordinateMapper_spec ::
  "int \<Rightarrow> int \<Rightarrow> int \<Rightarrow> int \<Rightarrow> nat \<Rightarrow> nat \<Rightarrow> jsnum \<Rightarrow> jsnum \<Rightarrow> jsnum \<Rightarrow> jsnum \<Rightarrow> jsnum \<Rightarrow> jsnum
   \<Rightarrow> jsnum \<times> jsnum \<times> jsnum \<times> jsnum" where
  "CoordinateMapper_spec x y w h vw vh elLeft elTop elWidth elHeight processingWidth processingHeight =
     (let sx = js_div (renderedWidth vw vh elWidth elHeight) processingWidth;
          sy = js_div (renderedHeight vw vh elWidth elHeight) processingHeight
      in (js_add (js_add elLeft (letterbox_offsetX vw vh elWidth elHeight)) (js_mul (Fin (of_int x)) sx),
          js_add (js_add elTop (letterbox_offsetY vw vh elWidth elHeight)) (js_mul (Fin (of_int y)) sy),
          js_mul (Fin (of_int w)) sx,
          js_mul (Fin (of_int h)) sy))"

lemma positionOverlay_spec:
  "positionOverlay \<lparr>box_x = x, box_y = y, box_w = w, box_h = h\<rparr> procW procH vw vh
       \<lparr>rect_left = elLeft, rect_top = elTop, rect_width = elWidth, rect_height = elHeight\<rparr>
   = (case CoordinateMapper_spec x y w h vw vh elLeft elTop elWidth elHeight procW procH of
        (sx, sy, sw, sh) \<Rightarrow> \<lparr>px = sx, py = sy, pw = sw, ph = sh\<rparr>)"
  by (simp add: positionOverlay_def CoordinateMapper_spec_def renderedWidth_def renderedHeight_def
        letterbox_offsetX_def letterbox_offsetY_def contain_wider_def Let_def)

lemma fl_16_9: "fl (16 / 9) = Fin (2001599834386887 / 1125899906842624)"
  using fl_eqI [of "16 / 9" 0 "- 52" 8006399337547548]
  by (simp add: power_int_minus)

lemma fl_exactI:
  assumes "0 < v" and "2 powi k \<le> v" and "v < 2 powi (k + 1)"
    and "e = max (k - 52) (- 1074)" and "v / 2 powi e = of_int m" and "v < 2 powi 1024"
  shows "fl v = Fin v"
proof -
  have "of_int m * 2 powi e = v" using assms(5) by (simp add: field_simps)
  then show ?thesis
    using fl_eqI [of v k e m] assms by simp
qed

lemma example_values:
  "js_div (Fin 1920) (Fin 1080) = Fin (2001599834386887 / 1125899906842624)"
  "js_div (Fin 360) (Fin 360) = Fin 1"
  "js_div (Fin 360) (Fin (2001599834386887 / 1125899906842624)) = Fin (405 / 2)"
  "js_sub (Fin 360) (Fin (405 / 2)) = Fin (315 / 2)"
  "js_div (Fin (315 / 2)) (Fin 2) = Fin (315 / 4)"
  "js_div (Fin 360) (Fin 192) = Fin (15 / 8)"
  "js_div (Fin (405 / 2)) (Fin 108) = Fin (15 / 8)"
  "js_mul (Fin 64) (Fin (15 / 8)) = Fin 120"
  "js_mul (Fin 0) (Fin (15 / 8)) = Fin 0"
proof -
  show "js_div (Fin 1920) (Fin 1080) = Fin (2001599834386887 / 1125899906842624)"
    by (simp add: fl_16_9)
  show "js_div (Fin 360) (Fin 360) = Fin 1"
    using fl_of_int [of 1] by simp
  show "js_div (Fin 360) (Fin (2001599834386887 / 1125899906842624)) = Fin (405 / 2)"
    using fl_eqI [of "360 / (2001599834386887 / 1125899906842624)" 7 "- 45" 7124835347988480]
    by (simp add: power_int_minus)
  show "js_sub (Fin 360) (Fin (405 / 2)) = Fin (315 / 2)"
    using fl_exactI [of "315 / 2" 7 "- 45" 5541538603991040]
    by (simp add: js_sub_def power_int_minus)
  show "js_div (Fin (315 / 2)) (Fin 2) = Fin (315 / 4)"
    using fl_exactI [of "315 / 4" 6 "- 46" 5541538603991040]
    by (simp add: power_int_minus)
  show "js_div (Fin 360) (Fin 192) = Fin (15 / 8)"
    using fl_exactI [of "15 / 8" 0 "- 52" 8444249301319680]
    by (simp add: power_int_minus)
  show "js_div (Fin (405 / 2)) (Fin 108) = Fin (15 / 8)"
    using fl_exactI [of "15 / 8" 0 "- 52" 8444249301319680]
    by (simp add: power_int_minus)
  show "js_mul (Fin 64) (Fin (15 / 8)) = Fin 120"
    using fl_of_int [of 120] by simp
  show "js_mul (Fin 0) (Fin (15 / 8)) = Fin 0"
    by (simp add: fl_def)
qed

lemma example_chain:
  "renderedWidth 1920 1080 (Fin 360) (Fin 360) = Fin 360"
  "renderedHeight 1920 1080 (Fin 360) (Fin 360) = Fin (405 / 2)"
  "letterbox_offsetX 1920 1080 (Fin 360) (Fin 360) = Fin 0"
  "letterbox_offsetY 1920 1080 (Fin 360) (Fin 360) = Fin (315 / 4)"
  by (simp_all add: renderedWidth_def renderedHeight_def letterbox_offsetX_def
        letterbox_offsetY_def contain_wider_def example_values
        del: js_div.simps js_mul.simps js_add.simps)

lemma example_overlay:
  "pw (positionOverlay \<lparr>box_x = 0, box_y = 0, box_w = 64, box_h = 64\<rparr> (Fin 192) (Fin 108)
         1920 1080
         \<lparr>rect_left = l, rect_top = t, rect_width = Fin 360, rect_height = Fin 360\<rparr>) = Fin 120
   \<and> ph (positionOverlay \<lparr>box_x = 0, box_y = 0, box_w = 64, box_h = 64\<rparr> (Fin 192) (Fin 108)
         1920 1080
         \<lparr>rect_left = l, rect_top = t, rect_width = Fin 360, rect_height = Fin 360\<rparr>) = Fin 120"
  by (simp add: positionOverlay_def Let_def example_values
        del: js_div.simps js_mul.simps js_add.simps)


text \<open>
  Claim C2. \<^verbatim>\<open>positionOverlay\<close> computes the rectangle of the specification: the same
  comparison of aspect ratios, rendered size, offsets and scale factors, each operation
  in binary64. For a 1920 by 1080 video in a 360 by 360 element the rendered size is 360
  by 202.5 and the offsets are 0 and 78.75; the box \<open>(0, 0, 64, 64)\<close> of a 192 by 108
  processing canvas is mapped to a width and a height of exactly 120, wherever the
  element is.
\<close>

theorem contain_fit_mapping:
  "positionOverlay \<lparr>box_x = x, box_y = y, box_w = w, box_h = h\<rparr> procW procH vw vh
       \<lparr>rect_left = elLeft, rect_top = elTop, rect_width = elWidth, rect_height = elHeight\<rparr>
     = (case CoordinateMapper_spec x y w h vw vh elLeft elTop elWidth elHeight procW procH of
          (sx, sy, sw, sh) \<Rightarrow> \<lparr>px = sx, py = sy, pw = sw, ph = sh\<rparr>)
   \<and> renderedWidth 1920 1080 (Fin 360) (Fin 360) = Fin 360
   \<and> renderedHeight 1920 1080 (Fin 360) (Fin 360) = Fin (405 / 2)
   \<and> letterbox_offsetX 1920 1080 (Fin 360) (Fin 360) = Fin 0
   \<and> letterbox_offsetY 1920 1080 (Fin 360) (Fin 360) = Fin (315 / 4)
   \<and> pw (positionOverlay \<lparr>box_x = 0, box_y = 0, box_w = 64, box_h = 64\<rparr> (Fin 192) (Fin 108)
            1920 1080
            \<lparr>rect_left = l, rect_top = t, rect_width = Fin 360, rect_height = Fin 360\<rparr>) = Fin 120
   \<and> ph (positionOverlay \<lparr>box_x = 0, box_y = 0, box_w = 64, box_h = 64\<rparr> (Fin 192) (Fin 108)
            1920 1080
            \<lparr>rect_left = l, rect_top = t, rect_width = Fin 360, rect_height = Fin 360\<rparr>) = Fin 120"
  using positionOverlay_spec [of x y w h procW procH vw vh elLeft elTop elWidth elHeight]
    example_chain example_overlay [of l t]
  by (simp only: simp_thms)

section \<open>The score of a window\<close>


lemma js_add_NaN_right [simp]: "js_add a NaN = NaN"
  by (cases a) simp_all

lemma luma_NaN [simp]: "luma NaN g b = 0" "luma r NaN b = 0" "luma r g NaN = 0"
  by (simp_all add: luma_def)




lemma length_tGray [simp]: "length (tGray T) = width T * height T"
  by (simp add: tGray_def)














text \<open>Scores are never negative: a score is NaN, \<open>+Infinity\<close> or a finite value from 0 up.\<close>

definition nonneg :: "jsnum \<Rightarrow> bool" where
  "nonneg a = (a = NaN \<or> a = PInf \<or> (\<exists>r. a = Fin r \<and> 0 \<le> r))"

lemma nonneg_abs: "nonneg (js_abs a)"
  by (cases a) (simp_all add: nonneg_def)

lemma nonneg_add: "nonneg a \<Longrightarrow> nonneg b \<Longrightarrow> nonneg (js_add a b)"
proof -
  assume a: "nonneg a" and b: "nonneg b"
  show ?thesis
  proof (cases a)
    case (Fin r)
    then have r: "0 \<le> r" using a by (simp add: nonneg_def)
    show ?thesis
    proof (cases b)
      case (Fin q)
      then have "0 \<le> q" using b by (simp add: nonneg_def)
      then have "0 \<le> r + q" using r by simp
      then show ?thesis using fl_nonneg [of "r + q"] \<open>a = Fin r\<close> Fin by (auto simp: nonneg_def)
    qed (use b \<open>a = Fin r\<close> in \<open>simp_all add: nonneg_def\<close>)
  next
    case PInf
    then show ?thesis using b by (cases b) (simp_all add: nonneg_def)
  qed (use a in \<open>simp_all add: nonneg_def\<close>)
qed

lemma nonneg_div: "nonneg a \<Longrightarrow> nonneg b \<Longrightarrow> nonneg (js_div a b)"
proof -
  assume a: "nonneg a" and b: "nonneg b"
  show ?thesis
  proof (cases a)
    case (Fin r)
    then have r: "0 \<le> r" using a by (simp add: nonneg_def)
    show ?thesis
    proof (cases b)
      case (Fin q)
      then have q: "0 \<le> q" using b by (simp add: nonneg_def)
      show ?thesis
      proof (cases "q = 0")
        case True
        then show ?thesis using r \<open>a = Fin r\<close> Fin by (simp add: nonneg_def inf_of_sign_def)
      next
        case False
        then have "0 \<le> r / q" using r q by simp
        then show ?thesis
          using fl_nonneg [of "r / q"] \<open>a = Fin r\<close> Fin False by (auto simp: nonneg_def)
      qed
    qed (use b \<open>a = Fin r\<close> in \<open>simp_all add: nonneg_def\<close>)
  next
    case PInf
    then show ?thesis using b by (cases b) (auto simp: nonneg_def inf_of_sign_def)
  qed (use a in \<open>simp_all add: nonneg_def\<close>)
qed

lemma nonneg_less_finite:
  assumes "nonneg a" and "js_less a b"
  shows "\<exists>r. a = Fin r \<and> 0 \<le> r"
  using assms by (cases a; cases b) (simp_all add: nonneg_def)

lemma tx_loop_nonneg:
  "nonneg tot \<Longrightarrow> nonneg cnt \<Longrightarrow>
   nonneg (fst (tx_loop F T tg x fy ty tx (tot, cnt))) \<and> nonneg (snd (tx_loop F T tg x fy ty tx (tot, cnt)))"
proof (induction "nat (int (width T) - tx)" arbitrary: tx tot cnt rule: less_induct)
  case less
  show ?case
  proof (cases "tx < int (width T)")
    case False
    then show ?thesis using less.prems by (subst (1 2) tx_loop.simps) simp
  next
    case True
    have m: "nat (int (width T) - (tx + 2)) < nat (int (width T) - tx)" using True by simp
    have c: "nonneg (js_add cnt (Fin 1))"
      using less.prems(2) by (intro nonneg_add) (simp_all add: nonneg_def)
    show ?thesis
      using True
      by (subst (1 2) tx_loop.simps)
         (simp add: Let_def less.hyps [OF m nonneg_add [OF less.prems(1) nonneg_abs] c])
  qed
qed

lemma ty_loop_nonneg:
  "nonneg (fst acc) \<Longrightarrow> nonneg (snd acc) \<Longrightarrow>
   nonneg (fst (ty_loop F T tg x y ty acc)) \<and> nonneg (snd (ty_loop F T tg x y ty acc))"
proof (induction "nat (int (height T) - ty)" arbitrary: ty acc rule: less_induct)
  case less
  show ?case
  proof (cases "ty < int (height T)")
    case False
    then show ?thesis using less.prems by (subst (1 2) ty_loop.simps) simp
  next
    case True
    have m: "nat (int (height T) - (ty + 2)) < nat (int (height T) - ty)" using True by simp
    obtain tot cnt where acc: "acc = (tot, cnt)" by (cases acc)
    have n: "nonneg (fst (tx_loop F T tg x (y + ty) ty 0 acc))"
            "nonneg (snd (tx_loop F T tg x (y + ty) ty 0 acc))"
      using tx_loop_nonneg [of tot cnt F T tg x "y + ty" ty 0] less.prems by (simp_all add: acc)
    show ?thesis
      using True by (subst (1 2) ty_loop.simps) (simp add: Let_def less.hyps [OF m n])
  qed
qed

lemma mae_nonneg: "nonneg (mae F T tg x y)"
proof -
  obtain tot cnt where r: "ty_loop F T tg x y 0 (Fin 0, Fin 0) = (tot, cnt)"
    by (cases "ty_loop F T tg x y 0 (Fin 0, Fin 0)")
  have "nonneg tot \<and> nonneg cnt"
    using ty_loop_nonneg [of "(Fin 0, Fin 0)" F T tg x y 0] by (simp add: r nonneg_def)
  then show ?thesis by (simp add: mae_def r nonneg_div)
qed

lemma js_less_trans: "js_less a b \<Longrightarrow> js_less b c \<Longrightarrow> js_less a c"
  by (cases a; cases b; cases c) simp_all

lemma js_less_irrefl [simp]: "\<not> js_less a a"
  by (cases a) simp_all

lemma js_less_PInf_iff: "js_less a PInf \<longleftrightarrow> (\<exists>r. a = Fin r) \<or> a = NInf"
  by (cases a) simp_all


section \<open>The scan\<close>

text \<open>
  The offsets that the two outer loops visit, and the order in which they visit them:
  rows from the top, each row from the left.
\<close>

definition grid :: "image \<Rightarrow> image \<Rightarrow> nat \<Rightarrow> (int \<times> int) set" where
  "grid F T step =
     {(x, y). 0 \<le> x \<and> x \<le> int (width F) - int (width T) \<and> int step dvd x
            \<and> 0 \<le> y \<and> y \<le> int (height F) - int (height T) \<and> int step dvd y}"

definition earlier :: "int \<times> int \<Rightarrow> int \<times> int \<Rightarrow> bool" where
  "earlier p q = (snd p < snd q \<or> (snd p = snd q \<and> fst p < fst q))"

definition seen :: "image \<Rightarrow> image \<Rightarrow> nat \<Rightarrow> int \<Rightarrow> int \<Rightarrow> (int \<times> int) set" where
  "seen F T step y x = {p \<in> grid F T step. earlier p (x, y)}"

text \<open>
  The invariant of the scan, for the set \<open>S\<close> of offsets visited so far: no visited offset
  has a score below that of \<open>best\<close>; \<open>best\<close> is the initial object as long as its box is
  null; otherwise it records a visited offset with its score, finite and not negative,
  and no visited offset with the same score comes earlier.
\<close>

definition best_inv :: "image \<Rightarrow> image \<Rightarrow> (int \<times> int) set \<Rightarrow> match \<Rightarrow> bool" where
  "best_inv F T S m =
     ((\<forall>p \<in> S. \<not> js_less (mae F T (tGray T) (fst p) (snd p)) (score m))
      \<and> (case box m of
           None \<Rightarrow> m = sentinel
         | Some b \<Rightarrow>
             (best_x m, best_y m) \<in> S
             \<and> score m = mae F T (tGray T) (best_x m) (best_y m)
             \<and> (\<exists>r. score m = Fin r \<and> 0 \<le> r)
             \<and> b = \<lparr>box_x = best_x m, box_y = best_y m,
                     box_w = int (width T), box_h = int (height T)\<rparr>
             \<and> (\<forall>p \<in> S. mae F T (tGray T) (fst p) (snd p) = score m
                    \<longrightarrow> \<not> earlier p (best_x m, best_y m))))"

lemma dvd_between:
  fixes a b s :: int
  assumes "0 < s" "s dvd a" "s dvd b" "a \<le> b" "b < a + s"
  shows "b = a"
proof (rule ccontr)
  assume "b \<noteq> a"
  then have "0 < b - a" using assms(4) by simp
  moreover have "s dvd b - a" using assms(2,3) by (rule dvd_diff [rotated])
  ultimately have "s \<le> b - a" by (rule zdvd_imp_le [rotated])
  then show False using assms(5) by simp
qed

lemma earlier_asym: "earlier p q \<Longrightarrow> \<not> earlier q p"
  by (auto simp: earlier_def)

lemma earlier_irrefl [simp]: "\<not> earlier p p"
  by (simp add: earlier_def)

lemma seen_start: "seen F T step 0 0 = {}"
  by (auto simp: seen_def grid_def earlier_def)

lemma seen_next:
  assumes "0 < step" "int step dvd x" "0 \<le> x" "x \<le> int (width F) - int (width T)"
    and "int step dvd y" "0 \<le> y" "y \<le> int (height F) - int (height T)"
  shows "seen F T step y (x + int step) = insert (x, y) (seen F T step y x)"
proof (rule set_eqI)
  fix p :: "int \<times> int"
  obtain a b where p: "p = (a, b)" by (cases p)
  show "p \<in> seen F T step y (x + int step) \<longleftrightarrow> p \<in> insert (x, y) (seen F T step y x)"
  proof
    assume "p \<in> seen F T step y (x + int step)"
    then have g: "p \<in> grid F T step" and e: "b < y \<or> (b = y \<and> a < x + int step)"
      by (simp_all add: seen_def earlier_def p)
    show "p \<in> insert (x, y) (seen F T step y x)"
    proof (cases "b = y \<and> x \<le> a")
      case True
      have "int step dvd a" using g by (simp add: grid_def p)
      then have "a = x" using assms(1,2) True e by (intro dvd_between [of "int step"]) simp_all
      then show ?thesis using True by (simp add: p)
    next
      case False
      then have "earlier p (x, y)" using e by (auto simp: earlier_def p)
      then show ?thesis using g by (simp add: seen_def)
    qed
  next
    assume "p \<in> insert (x, y) (seen F T step y x)"
    then show "p \<in> seen F T step y (x + int step)"
      using assms by (auto simp: seen_def grid_def earlier_def p)
  qed
qed

lemma seen_row_end:
  assumes "0 < step" "int step dvd y" "\<not> x \<le> int (width F) - int (width T)"
  shows "seen F T step y x = seen F T step (y + int step) 0"
proof (rule set_eqI)
  fix p :: "int \<times> int"
  obtain a b where p: "p = (a, b)" by (cases p)
  show "p \<in> seen F T step y x \<longleftrightarrow> p \<in> seen F T step (y + int step) 0"
  proof
    assume "p \<in> seen F T step y x"
    then show "p \<in> seen F T step (y + int step) 0"
      using assms(1) by (auto simp: seen_def earlier_def p)
  next
    assume "p \<in> seen F T step (y + int step) 0"
    then have g: "p \<in> grid F T step" and e: "b < y + int step"
      by (auto simp: seen_def earlier_def p grid_def)
    have a: "a < x" using g assms(3) by (simp add: grid_def p)
    have "b \<le> y"
    proof (rule ccontr)
      assume "\<not> b \<le> y"
      then have "y \<le> b" by simp
      moreover have "int step dvd b" using g by (simp add: grid_def p)
      ultimately have "b = y" using assms(1,2) e by (intro dvd_between [of "int step"]) simp_all
      then show False using \<open>\<not> b \<le> y\<close> by simp
    qed
    then show "p \<in> seen F T step y x" using g a by (auto simp: seen_def earlier_def p)
  qed
qed

lemma seen_end:
  assumes "\<not> y \<le> int (height F) - int (height T)"
  shows "seen F T step y 0 = grid F T step"
  using assms by (auto simp: seen_def grid_def earlier_def)

lemma best_inv_sentinel: "best_inv F T {} sentinel"
  by (simp add: best_inv_def sentinel_def)

lemma best_inv_update:
  assumes "best_inv F T S m" and "\<forall>q \<in> S. earlier q (x, y)"
  shows "best_inv F T (insert (x, y) S) (update_best T m x y (mae F T (tGray T) x y))"
proof (cases "js_less (mae F T (tGray T) x y) (score m)")
  case True
  let ?s = "mae F T (tGray T) x y"
  have no: "\<not> js_less (mae F T (tGray T) (fst q) (snd q)) (score m)" if "q \<in> S" for q
    using assms(1) that by (simp add: best_inv_def)
  have a: "\<not> js_less (mae F T (tGray T) (fst q) (snd q)) ?s" if "q \<in> insert (x, y) S" for q
  proof (cases "q = (x, y)")
    case True
    then show ?thesis by simp
  next
    case False
    then have "q \<in> S" using that by simp
    then show ?thesis using no js_less_trans [OF _ True] by blast
  qed
  have b: "\<not> earlier q (x, y)"
    if "q \<in> insert (x, y) S" "mae F T (tGray T) (fst q) (snd q) = ?s" for q
  proof (cases "q = (x, y)")
    case True
    then show ?thesis by simp
  next
    case False
    then have "q \<in> S" using that(1) by simp
    then show ?thesis using no [of q] that(2) True by simp
  qed
  have fin: "\<exists>r. ?s = Fin r \<and> 0 \<le> r"
    using mae_nonneg True by (rule nonneg_less_finite)
  show ?thesis
    using True a b fin by (simp add: best_inv_def update_best_def)
next
  case False
  have inv: "(\<forall>p \<in> S. \<not> js_less (mae F T (tGray T) (fst p) (snd p)) (score m))"
    using assms(1) by (simp add: best_inv_def)
  show ?thesis
  proof (cases "box m")
    case None
    then show ?thesis using assms(1) False by (auto simp: best_inv_def update_best_def)
  next
    case (Some b)
    then have f: "(best_x m, best_y m) \<in> S"
        "score m = mae F T (tGray T) (best_x m) (best_y m)"
        "\<exists>r. score m = Fin r \<and> 0 \<le> r"
        "b = \<lparr>box_x = best_x m, box_y = best_y m, box_w = int (width T), box_h = int (height T)\<rparr>"
        "\<forall>p \<in> S. mae F T (tGray T) (fst p) (snd p) = score m
            \<longrightarrow> \<not> earlier p (best_x m, best_y m)"
      using assms(1) unfolding best_inv_def Some option.case by blast+
    have "earlier (best_x m, best_y m) (x, y)" using f(1) assms(2) by blast
    then have ne: "\<not> earlier (x, y) (best_x m, best_y m)" by (rule earlier_asym)
    show ?thesis
      unfolding best_inv_def update_best_def if_not_P [OF False] Some option.case
      using False inv f ne by simp
  qed
qed

lemma x_loop_inv:
  assumes "0 < step" "int step dvd y" "0 \<le> y" "y \<le> int (height F) - int (height T)"
  shows "0 \<le> x \<Longrightarrow> int step dvd x \<Longrightarrow> best_inv F T (seen F T step y x) m \<Longrightarrow>
         \<exists>m'. x_loop step F T (tGray T) y x m = Some m'
              \<and> best_inv F T (seen F T step (y + int step) 0) m'"
proof (induction "nat (int (width F) - int (width T) - x + 1)" arbitrary: x m rule: less_induct)
  case less
  show ?case
  proof (cases "x \<le> int (width F) - int (width T)")
    case False
    have "x_loop step F T (tGray T) y x m = Some m"
      using False by (subst x_loop.simps) simp
    moreover have "best_inv F T (seen F T step (y + int step) 0) m"
      using less.prems(3) seen_row_end [OF assms(1,2) False] by simp
    ultimately show ?thesis by blast
  next
    case True
    let ?m = "update_best T m x y (mae F T (tGray T) x y)"
    have st: "x_loop step F T (tGray T) y x m = x_loop step F T (tGray T) y (x + int step) ?m"
      using True assms(1) by (subst x_loop.simps) simp
    have e: "\<forall>q \<in> seen F T step y x. earlier q (x, y)" by (simp add: seen_def)
    have "best_inv F T (insert (x, y) (seen F T step y x)) ?m"
      using less.prems(3) e by (rule best_inv_update)
    then have inv: "best_inv F T (seen F T step y (x + int step)) ?m"
      using seen_next [OF assms(1) less.prems(2,1) True assms(2,3,4)] by simp
    have m: "nat (int (width F) - int (width T) - (x + int step) + 1)
               < nat (int (width F) - int (width T) - x + 1)"
      using True assms(1) by simp
    have p1: "0 \<le> x + int step" using less.prems(1) by simp
    have p2: "int step dvd x + int step" using less.prems(2) by simp
    show ?thesis using less.hyps [OF m p1 p2 inv] st by simp
  qed
qed

lemma y_loop_inv:
  assumes "0 < step"
  shows "0 \<le> y \<Longrightarrow> int step dvd y \<Longrightarrow> best_inv F T (seen F T step y 0) m \<Longrightarrow>
         \<exists>m'. y_loop step F T (tGray T) y m = Some m' \<and> best_inv F T (grid F T step) m'"
proof (induction "nat (int (height F) - int (height T) - y + 1)" arbitrary: y m rule: less_induct)
  case less
  show ?case
  proof (cases "y \<le> int (height F) - int (height T)")
    case False
    have "y_loop step F T (tGray T) y m = Some m"
      using False by (subst y_loop.simps) simp
    moreover have "best_inv F T (grid F T step) m"
      using less.prems(3) seen_end [OF False] by simp
    ultimately show ?thesis by blast
  next
    case True
    obtain m1 where r: "x_loop step F T (tGray T) y 0 m = Some m1"
        "best_inv F T (seen F T step (y + int step) 0) m1"
      using x_loop_inv [OF assms less.prems(2,1) True order_refl _ less.prems(3)] by auto
    have st: "y_loop step F T (tGray T) y m = y_loop step F T (tGray T) (y + int step) m1"
      using True assms by (subst y_loop.simps) (simp add: r(1))
    have m: "nat (int (height F) - int (height T) - (y + int step) + 1)
               < nat (int (height F) - int (height T) - y + 1)"
      using True assms by simp
    have p1: "0 \<le> y + int step" using less.prems(1) by simp
    have p2: "int step dvd y + int step" using less.prems(2) by simp
    show ?thesis using less.hyps [OF m p1 p2 r(2)] st by simp
  qed
qed

text \<open>
  With a positive stride the search returns; with stride 0 it does not, as soon as the
  frame is as high as the template.
\<close>

lemma findTemplate_stride_0:
  assumes "height T \<le> height F"
  shows "findTemplate F T 0 = None"
proof -
  have "x_loop 0 F T (tGray T) 0 0 sentinel = None
        \<or> x_loop 0 F T (tGray T) 0 0 sentinel = Some sentinel"
    by (subst (1 2) x_loop.simps) simp
  then show ?thesis
    unfolding findTemplate_def using assms by (subst y_loop.simps) auto
qed

lemma findTemplate_inv:
  assumes "0 < step"
  shows "\<exists>m. findTemplate F T step = Some m \<and> best_inv F T (grid F T step) m"
  unfolding findTemplate_def
  using y_loop_inv [OF assms order_refl, of F T sentinel] best_inv_sentinel [of F T]
  by (simp add: seen_start)

lemma findTemplate_returns: "0 < step \<Longrightarrow> \<exists>m. findTemplate F T step = Some m"
  using findTemplate_inv [of step F T] by blast


subsection \<open>The box of a result\<close>

text \<open>
  Claim C10. Whenever \<^verbatim>\<open>findTemplate\<close>, with a positive stride, returns a result whose box
  is not null, the box lies inside the frame and on the search grid:
  \<open>0 \<le> box.x \<le> fw - tw\<close>, \<open>0 \<le> box.y \<le> fh - th\<close>, both are multiples of the stride,
  \<open>box.w = tw\<close> and \<open>box.h = th\<close>; the box is at the offset of the result, and the score
  recorded with it is finite and not negative.
\<close>

theorem findTemplate_box_in_frame:
  assumes "0 < step" and "findTemplate F T step = Some m" and "box m = Some b"
  shows "0 \<le> box_x b \<and> box_x b \<le> int (width F) - int (width T)
       \<and> 0 \<le> box_y b \<and> box_y b \<le> int (height F) - int (height T)
       \<and> int step dvd box_x b \<and> int step dvd box_y b
       \<and> box_w b = int (width T) \<and> box_h b = int (height T)
       \<and> box_x b = best_x m \<and> box_y b = best_y m
       \<and> (\<exists>r. score m = Fin r \<and> 0 \<le> r)"
proof -
  have "best_inv F T (grid F T step) m"
    using findTemplate_inv [OF assms(1), of F T] assms(2) by simp
  then have f: "(best_x m, best_y m) \<in> grid F T step"
      "\<exists>r. score m = Fin r \<and> 0 \<le> r"
      "b = \<lparr>box_x = best_x m, box_y = best_y m, box_w = int (width T), box_h = int (height T)\<rparr>"
    unfolding best_inv_def assms(3) option.case by blast+
  show ?thesis using f(1,2) by (simp add: f(3) grid_def)
qed

subsection \<open>The minimum, and the first of equal minima\<close>


subsection \<open>An exact copy of the template\<close>



section \<open>The matcher on a three-pixel frame\<close>

text \<open>
  A template of one black pixel, and two frames of one row: in \<open>frame_tie\<close> the second
  and the third pixel equal the template, in \<open>frame_copy\<close> only the second.
\<close>

definition tmpl_px :: image where
  "tmpl_px = \<lparr>width = 1, height = 1, data = [0, 0, 0, 255]\<rparr>"

definition frame_tie :: image where
  "frame_tie = \<lparr>width = 3, height = 1,
                 data = [0, 0, 100, 255,  0, 0, 0, 255,  0, 0, 0, 255]\<rparr>"


lemma fl_numeral: "(numeral k :: int) < 2 ^ 53 \<Longrightarrow> fl (numeral k) = Fin (numeral k)"
  using fl_of_int [of "numeral k"] by simp

lemma fl_0 [simp]: "fl 0 = Fin 0"
  by (simp add: fl_def)

lemma fl_1 [simp]: "fl 1 = Fin 1"
  using fl_of_int [of 1] by simp

lemma luma_0_0_0: "luma (Fin 0) (Fin 0) (Fin 0) = 0"
  unfolding luma_def fl_299 fl_587 fl_114 by simp

lemma luma_0_0_100: "luma (Fin 0) (Fin 0) (Fin 100) = 11"
  using luma_bounds(5) [of 0 0 100] by (simp add: weighted_def)

lemma tGray_tmpl_px: "tGray tmpl_px = [0]"
  by (simp add: tGray_def tmpl_px_def channel_def luma_0_0_0 clamp8_def)


text \<open>One iteration of each loop, for evaluation on concrete frames.\<close>

lemma tx_loop_run:
  "tx < int (width T) \<Longrightarrow>
   tx_loop F T tg x fy ty tx (tot, cnt) =
     tx_loop F T tg x fy ty (tx + 2)
       (js_add tot (js_abs (js_sub
           (Fin (of_int (luma (channel (data F) ((fy * int (width F) + (x + tx)) * 4 + 0))
                              (channel (data F) ((fy * int (width F) + (x + tx)) * 4 + 1))
                              (channel (data F) ((fy * int (width F) + (x + tx)) * 4 + 2)))))
           (tGray_at tg (ty * int (width T) + tx)))),
        js_add cnt (Fin 1))"
  by (subst tx_loop.simps) (simp add: Let_def)

lemma tx_loop_stop: "\<not> tx < int (width T) \<Longrightarrow> tx_loop F T tg x fy ty tx acc = acc"
  by (cases acc) (simp add: tx_loop.simps)

lemma ty_loop_run:
  "ty < int (height T) \<Longrightarrow>
   ty_loop F T tg x y ty acc = ty_loop F T tg x y (ty + 2) (tx_loop F T tg x (y + ty) ty 0 acc)"
  by (subst ty_loop.simps) (simp add: Let_def)

lemma ty_loop_stop: "\<not> ty < int (height T) \<Longrightarrow> ty_loop F T tg x y ty acc = acc"
  by (subst ty_loop.simps) simp

lemma x_loop_run:
  "x \<le> int (width F) - int (width T) \<Longrightarrow> 0 < step \<Longrightarrow>
   x_loop step F T tg y x best
     = x_loop step F T tg y (x + int step) (update_best T best x y (mae F T tg x y))"
  by (subst x_loop.simps) simp

lemma x_loop_stop:
  "\<not> x \<le> int (width F) - int (width T) \<Longrightarrow> x_loop step F T tg y x best = Some best"
  by (subst x_loop.simps) simp

lemma y_loop_run:
  "y \<le> int (height F) - int (height T) \<Longrightarrow> 0 < step \<Longrightarrow>
   y_loop step F T tg y best
     = (case x_loop step F T tg y 0 best of
          None \<Rightarrow> None | Some best' \<Rightarrow> y_loop step F T tg (y + int step) best')"
  by (subst y_loop.simps) (simp split: option.split)

lemma y_loop_stop:
  "\<not> y \<le> int (height F) - int (height T) \<Longrightarrow> y_loop step F T tg y best = Some best"
  by (subst y_loop.simps) simp

lemmas loop_runs = tx_loop_run tx_loop_stop ty_loop_run ty_loop_stop
  x_loop_run x_loop_stop y_loop_run y_loop_stop

lemma mae_frame_tie:
  "mae frame_tie tmpl_px [0] 0 0 = Fin 11"
  "mae frame_tie tmpl_px [0] 1 0 = Fin 0"
  "mae frame_tie tmpl_px [0] 2 0 = Fin 0"
  by (simp_all add: mae_def loop_runs frame_tie_def tmpl_px_def
        channel_def tGray_at_def luma_0_0_0 luma_0_0_100 js_sub_def fl_numeral)

lemma findTemplate_frame_tie:
  "findTemplate frame_tie tmpl_px 1
     = Some \<lparr>best_x = 1, best_y = 0, score = Fin 0,
              box = Some \<lparr>box_x = 1, box_y = 0, box_w = 1, box_h = 1\<rparr>\<rparr>"
proof -
  have d: "width frame_tie = 3" "height frame_tie = 1" "width tmpl_px = 1" "height tmpl_px = 1"
    by (simp_all add: frame_tie_def tmpl_px_def)
  show ?thesis
    by (simp add: findTemplate_def tGray_tmpl_px loop_runs d mae_frame_tie
          update_best_def sentinel_def)
qed



theorem findTemplate_box_in_frame_witness:
  "findTemplate frame_tie tmpl_px 1
     = Some \<lparr>best_x = 1, best_y = 0, score = Fin 0,
              box = Some \<lparr>box_x = 1, box_y = 0, box_w = 1, box_h = 1\<rparr>\<rparr>
   \<and> (1::int) \<le> int (width frame_tie) - int (width tmpl_px)
   \<and> (0::int) \<le> int (height frame_tie) - int (height tmpl_px)"
proof -
  have step: "0 < (1::nat)" by simp
  have bx: "box \<lparr>best_x = 1, best_y = 0, score = Fin 0,
                    box = Some \<lparr>box_x = 1, box_y = 0, box_w = 1, box_h = 1\<rparr>\<rparr>
             = Some \<lparr>box_x = 1, box_y = 0, box_w = 1, box_h = 1\<rparr>"
    by simp
  show ?thesis
    using findTemplate_box_in_frame [OF step findTemplate_frame_tie bx] findTemplate_frame_tie
    by simp
qed





end
